theory Spec2Isabelle
  imports Complex_Main "HOL-Library.AList" "HOL-Library.Log_Nat" "HOL-Library.Word"
begin

section \<open>Python strings and number formatting\<close>

text \<open>
  A Python \<open>str\<close> is modelled as a \<open>string\<close> in which every \<open>char\<close> stands for one
  code point below 256.  The predicates below are Python's \<open>str.isspace\<close>,
  \<open>str.isdecimal\<close> and \<open>str.isdigit\<close> restricted to that range.
\<close>

definition is_space :: "char \<Rightarrow> bool" where
  "is_space c = (c \<in> set [CHR 0x09, CHR 0x0A, CHR 0x0B, CHR 0x0C, CHR 0x0D,
                            CHR 0x1C, CHR 0x1D, CHR 0x1E, CHR 0x1F, CHR 0x20,
                            CHR 0x85, CHR 0xA0])"

definition strip :: "string \<Rightarrow> string" where
  "strip s = rev (dropWhile is_space (rev (dropWhile is_space s)))"

definition rstrip_char :: "char \<Rightarrow> string \<Rightarrow> string" where
  "rstrip_char c s = rev (dropWhile (\<lambda>x. x = c) (rev s))"

definition digit_of_char :: "char \<Rightarrow> nat option" where
  "digit_of_char c = map_of (zip ''0123456789'' [0, 1, 2, 3, 4, 5, 6, 7, 8, 9]) c"

definition is_decimal :: "char \<Rightarrow> bool" where
  "is_decimal c = (digit_of_char c \<noteq> None)"

text \<open>\<open>str.isdigit\<close> also accepts the superscript digits U+00B2, U+00B3, U+00B9,
  which \<open>int()\<close> refuses.\<close>

definition is_digit :: "char \<Rightarrow> bool" where
  "is_digit c = (is_decimal c \<or> c \<in> set [CHR 0xB2, CHR 0xB3, CHR 0xB9])"

definition str_isdigit :: "string \<Rightarrow> bool" where
  "str_isdigit s = (s \<noteq> [] \<and> list_all is_digit s)"

text \<open>\<open>int(s)\<close> on a string that passed \<open>isdigit\<close>: the decimal value, or
  \<open>None\<close> for the \<open>ValueError\<close> a non-decimal digit raises.\<close>

definition int_of_str :: "string \<Rightarrow> nat option" where
  "int_of_str s =
     (if s \<noteq> [] \<and> list_all is_decimal s
      then Some (foldl (\<lambda>acc c. 10 * acc + the (digit_of_char c)) 0 s)
      else None)"

definition digit_char :: "nat \<Rightarrow> char" where
  "digit_char d = ''0123456789'' ! (d mod 10)"

fun dec_digits :: "nat \<Rightarrow> string" where
  "dec_digits n = (if n < 10 then [digit_char n]
                   else dec_digits (n div 10) @ [digit_char (n mod 10)])"

declare dec_digits.simps [simp del]

definition zero_pad :: "nat \<Rightarrow> string \<Rightarrow> string" where
  "zero_pad w s = replicate (w - length s) (CHR ''0'') @ s"

text \<open>The format \<open>f"{n:04d}"\<close>: sign-aware zero padding to width 4.\<close>

definition fmt_04d :: "int \<Rightarrow> string" where
  "fmt_04d n = (if n < 0 then CHR ''-'' # zero_pad 3 (dec_digits (nat (- n)))
                else zero_pad 4 (dec_digits (nat n)))"

text \<open>The format \<open>f"{v / 10.0:.1f}"\<close> for a natural number \<open>v\<close> of tenths: the
  quotient is within half an ulp of \<open>v / 10\<close>, so its one-decimal rendering is the
  integer part, a point, and the last digit of \<open>v\<close>.\<close>

definition fmt_tenths_1f :: "nat \<Rightarrow> string" where
  "fmt_tenths_1f v = dec_digits (v div 10) @ ''.'' @ [digit_char (v mod 10)]"

section \<open>Frequencies and network identities (session\_mgr.py, class Session)\<close>

text \<open>
  A Python \<open>float\<close>: a finite value, given by the real number it denotes, or one of
  the three special values.  The result of an arithmetic operation is rounded to
  binary64 as the hardware does: to the nearest representable value, ties to the even
  significand, and to an infinity beyond the range.
\<close>

datatype pyfloat = Finite real | PosInf | NegInf | NaN

datatype py_error = ValueError | OverflowError

definition pow2 :: "int \<Rightarrow> real" where
  "pow2 k = (if 0 \<le> k then 2 ^ nat k else 1 / 2 ^ nat (- k))"

definition round_half_even :: "real \<Rightarrow> int" where
  "round_half_even q =
     (let f = \<lfloor>q\<rfloor>; d = q - of_int f
      in if d < 1 / 2 then f else if 1 / 2 < d then f + 1
         else if even f then f else f + 1)"

text \<open>The binary exponent \<open>e\<close> of \<open>x\<close>, with \<open>2 ^ e \<le> \<bar>x\<bar> < 2 ^ (e + 1)\<close>, not below the
  exponent \<open>-1022\<close> of the subnormal numbers.  It is read off the bit length of the
  integer part of \<open>\<bar>x\<bar>\<close> scaled by \<open>2 ^ guard_bits\<close>, which is at least 1 for every
  \<open>\<bar>x\<bar>\<close> that is not below \<open>2 ^ (-1022)\<close>.\<close>

definition guard_bits :: nat where
  "guard_bits = 1100"

definition binary64_exponent :: "real \<Rightarrow> int" where
  "binary64_exponent x =
     max (- 1022) (bitlen \<lfloor>\<bar>x\<bar> * 2 ^ guard_bits\<rfloor> - int guard_bits - 1)"

definition binary64_limit :: real where
  "binary64_limit = 2 ^ 1024"

text \<open>Rounding a real to binary64: 53 significant bits, so one unit in the last place
  is \<open>2 ^ (e - 52)\<close>.\<close>

definition round64 :: "real \<Rightarrow> pyfloat" where
  "round64 x =
     (let ulp = pow2 (binary64_exponent x - 52);
          y = of_int (round_half_even (x / ulp)) * ulp
      in if binary64_limit \<le> y then PosInf
         else if y \<le> - binary64_limit then NegInf
         else Finite y)"

text \<open>\<open>f * 10.0\<close>\<close>

definition times10 :: "pyfloat \<Rightarrow> pyfloat" where
  "times10 f =
     (case f of
        Finite r \<Rightarrow> round64 (r * 10)
      | PosInf \<Rightarrow> PosInf
      | NegInf \<Rightarrow> NegInf
      | NaN \<Rightarrow> NaN)"

text \<open>\<open>int(x)\<close> on a float truncates toward zero, raises \<open>ValueError\<close> on NaN and
  \<open>OverflowError\<close> on an infinity.\<close>

definition py_int :: "pyfloat \<Rightarrow> py_error + int" where
  "py_int x =
     (case x of
        Finite r \<Rightarrow> Inr (if r < 0 then \<lceil>r\<rceil> else \<lfloor>r\<rfloor>)
      | PosInf \<Rightarrow> Inl OverflowError
      | NegInf \<Rightarrow> Inl OverflowError
      | NaN \<Rightarrow> Inl ValueError)"

text \<open>\<open>Session._freq_suffix\<close>.  The argument is already a float, so the guarded
  \<open>float(freq)\<close> cannot fail; \<open>int(f * 10.0)\<close> is outside the \<open>try\<close>.\<close>

definition freq_suffix :: "pyfloat \<Rightarrow> py_error + string" where
  "freq_suffix freq =
     (case py_int (times10 freq) of
        Inl e \<Rightarrow> Inl e
      | Inr n0 \<Rightarrow>
          let n1 = (if n0 < 0 then 0 else n0);
              n2 = (if n1 > 9999 then 9999 else n1)
          in Inr (fmt_04d n2))"

text \<open>The specification's wording of the suffix: \<open>int(f * 10)\<close>, Python's value of
  that expression, clamped to \<open>[0, 9999]\<close> and written as four decimal digits.\<close>

definition four_digits :: "nat \<Rightarrow> string" where
  "four_digits n = [digit_char (n div 1000), digit_char (n div 100), digit_char (n div 10), digit_char n]"

definition spec_freq_suffix :: "pyfloat \<Rightarrow> py_error + string" where
  "spec_freq_suffix f =
     (case py_int (times10 f) of
        Inl e \<Rightarrow> Inl e
      | Inr n \<Rightarrow> Inr (four_digits (nat (max 0 (min 9999 n)))))"

text \<open>
  The fields of a \<open>Session\<close> that routing reads.  \<open>net_prefixes\<close> is created with
  exactly four entries by the constructor and assigned nowhere else, so it is a
  quadruple here; \<open>freqs\<close> and \<open>scan_channels\<close> are lists, read under the length
  guards of the source.  \<open>last_seen\<close> is always a value of \<open>time()\<close>.
\<close>

record session =
  active_channel :: int
  freqs :: "pyfloat list"
  scan_channels :: "bool list"
  loopback :: bool
  last_seen :: real
  net_prefixes :: "string \<times> string \<times> string \<times> string"

definition prefix_at :: "string \<times> string \<times> string \<times> string \<Rightarrow> nat \<Rightarrow> string" where
  "prefix_at ps i =
     (case ps of (p0, p1, p2, p3) \<Rightarrow>
        if i = 0 then p0 else if i = 1 then p1 else if i = 2 then p2 else p3)"

text \<open>A \<open>for\<close> loop that appends one computed item per element and stops at the
  first exception.\<close>

fun collect :: "('a \<Rightarrow> py_error + 'b) \<Rightarrow> 'a list \<Rightarrow> py_error + 'b list" where
  "collect f [] = Inr []"
| "collect f (x # xs) =
     (case f x of
        Inl e \<Rightarrow> Inl e
      | Inr y \<Rightarrow> (case collect f xs of Inl e \<Rightarrow> Inl e | Inr ys \<Rightarrow> Inr (y # ys)))"

fun join :: "string \<Rightarrow> string list \<Rightarrow> string" where
  "join sep [] = []"
| "join sep [x] = x"
| "join sep (x # y # ys) = x @ sep @ join sep (y # ys)"

definition net_id_of :: "session \<Rightarrow> nat \<Rightarrow> py_error + string" where
  "net_id_of s i =
     (let prefix = prefix_at (net_prefixes s) i;
          freq = (if i < length (freqs s) then freqs s ! i else Finite 0)
      in case freq_suffix freq of
           Inl e \<Rightarrow> Inl e
         | Inr suffix \<Rightarrow> Inr (prefix @ suffix))"

text \<open>\<open>Session.compute_networks\<close>: \<open>(net_ids, active_net, summary)\<close>, or the
  exception of the first channel whose suffix cannot be computed.\<close>

definition compute_networks :: "session \<Rightarrow> py_error + (string list \<times> string \<times> string)" where
  "compute_networks s =
     (case collect (net_id_of s) [0..<4] of
        Inl e \<Rightarrow> Inl e
      | Inr net_ids \<Rightarrow>
          let active_idx = nat (max 0 (min 3 (active_channel s)));
              active_net = (if net_ids \<noteq> [] then net_ids ! active_idx else []);
              parts = map (\<lambda>(i, label).
                         label @ '':'' @ (if i = active_idx then ''*'' else [])
                           @ (if i < length net_ids then net_ids ! i else []))
                        (zip [0..<4] [''A'', ''B'', ''C'', ''D''])
          in Inr (net_ids, active_net, join ''  '' parts))"

section \<open>Network aliases (session\_mgr.py, class SessionManager)\<close>

text \<open>
  A \<open>SessionManager\<close>: the dictionary \<open>by_ssrc\<close> as an association list in insertion
  order from SSRC to the identity of a \<open>Session\<close> object, the objects themselves in
  \<open>heap\<close>, the alias dictionary \<open>net_alias\<close> as an association list (a Python
  \<open>dict\<close> is finite), and the \<open>auto_merge_by_freq\<close> flag.
\<close>

record session_manager =
  by_ssrc :: "(int \<times> nat) list"
  heap :: "nat \<Rightarrow> session"
  net_alias :: "(string \<times> string) list"
  auto_merge_by_freq :: bool

text \<open>\<open>Session.__init__\<close> with the four random prefixes and the clock reading, and
  \<open>SessionManager.__init__\<close>; identities not yet allocated hold a blank session.\<close>

definition new_session :: "string \<times> string \<times> string \<times> string \<Rightarrow> real \<Rightarrow> session" where
  "new_session prefixes t =
     \<lparr>active_channel = 0, freqs = [Finite 0, Finite 0, Finite 0, Finite 0],
      scan_channels = [False, False, False, False], loopback = False,
      last_seen = t, net_prefixes = prefixes\<rparr>"

definition new_session_manager :: session_manager where
  "new_session_manager =
     \<lparr>by_ssrc = [], heap = (\<lambda>i. new_session ([], [], [], []) 0),
      net_alias = [], auto_merge_by_freq = False\<rparr>"

text \<open>\<open>_freq_suffix_from_net\<close>: the four-digit suffix of a network id, or \<open>None\<close>.\<close>

definition freq_suffix_from_net :: "string \<Rightarrow> string option" where
  "freq_suffix_from_net nid0 =
     (let nid = strip nid0 in
      if length nid < 4 then None
      else let suffix = drop (length nid - 4) nid in
        if \<not> str_isdigit suffix then None
        else (case int_of_str suffix of
                None \<Rightarrow> None
              | Some val \<Rightarrow> if val \<le> 0 then None else Some (fmt_04d (int val))))"

text \<open>\<open>_auto_canon_for_suffix\<close>, which \<open>canonical_net\<close> calls on the digit string
  \<open>_freq_suffix_from_net\<close> returned.\<close>

definition auto_canon_for_suffix :: "string \<Rightarrow> string" where
  "auto_canon_for_suffix suffix =
     ''FREQ-'' @ (case int_of_str suffix of
                    Some v \<Rightarrow> rstrip_char (CHR ''.'') (rstrip_char (CHR ''0'') (fmt_tenths_1f v))
                  | None \<Rightarrow> suffix)"

text \<open>
  The \<open>while cur in self.net_alias and cur not in seen\<close> loop of \<open>canonical_net\<close>.
  The loop state is \<open>(cur, seen, had_manual_alias)\<close>; \<open>seen\<close> is kept as the list of
  ids added so far, newest first, so that its length is the number of iterations.
\<close>

function alias_loop ::
  "(string \<times> string) list \<Rightarrow> string \<Rightarrow> string list \<Rightarrow> bool \<Rightarrow> string \<times> string list \<times> bool" where
  "alias_loop al cur seen had =
     (case map_of al cur of
        Some nxt \<Rightarrow>
          if cur \<notin> set seen then alias_loop al nxt (cur # seen) True
          else (cur, seen, had)
      | None \<Rightarrow> (cur, seen, had))"
  by pat_completeness auto
termination
proof (relation "measure (\<lambda>(al, cur, seen, had). card (fst ` set al - set seen))")
  show "wf (measure (\<lambda>(al, cur, seen, had). card (fst ` set al - set seen)))"
    by simp
next
  fix al :: "(string \<times> string) list" and cur seen nxt and had :: bool
  assume look: "map_of al cur = Some nxt" and fresh: "cur \<notin> set seen"
  from look have "cur \<in> fst ` set al"
    by (metis domI dom_map_of_conv_image_fst)
  with fresh have "fst ` set al - set (cur # seen) \<subset> fst ` set al - set seen"
    by auto
  then have "card (fst ` set al - set (cur # seen)) < card (fst ` set al - set seen)"
    by (intro psubset_card_mono) auto
  then show "((al, nxt, cur # seen, True), (al, cur, seen, had))
      \<in> measure (\<lambda>(al, cur, seen, had). card (fst ` set al - set seen))"
    by simp
qed

declare alias_loop.simps [simp del]

definition canonical_net :: "session_manager \<Rightarrow> string \<Rightarrow> string" where
  "canonical_net st nid0 =
     (let nid = strip nid0 in
      if nid = [] then []
      else (case alias_loop (net_alias st) nid [] False of
              (cur, seen, had_manual_alias) \<Rightarrow>
                if auto_merge_by_freq st \<and> \<not> had_manual_alias
                then (case freq_suffix_from_net cur of
                        Some suffix \<Rightarrow> if suffix \<noteq> [] then auto_canon_for_suffix suffix else cur
                      | None \<Rightarrow> cur)
                else cur))"

definition merge_net :: "session_manager \<Rightarrow> string \<Rightarrow> string \<Rightarrow> session_manager" where
  "merge_net st src0 dst0 =
     (let src = strip src0; dst = strip dst0 in
      if src = [] \<or> dst = [] \<or> src = dst then st
      else st\<lparr>net_alias := AList.update src (canonical_net st dst) (net_alias st)\<rparr>)"

definition reset_net_aliases :: "session_manager \<Rightarrow> session_manager" where
  "reset_net_aliases st = st\<lparr>net_alias := []\<rparr>"

definition set_auto_merge_by_freq :: "session_manager \<Rightarrow> bool \<Rightarrow> session_manager" where
  "set_auto_merge_by_freq st enabled = st\<lparr>auto_merge_by_freq := enabled\<rparr>"

text \<open>The last four characters are decimal digits encoding a strictly positive
  value.\<close>

definition positive_suffix :: "string \<Rightarrow> bool" where
  "positive_suffix nid =
     (length nid \<ge> 4 \<and> list_all is_decimal (drop (length nid - 4) nid)
        \<and> list_ex (\<lambda>c. c \<noteq> CHR ''0'') (drop (length nid - 4) nid))"

section \<open>Recipient resolution (SessionManager.audio\_recipients\_for)\<close>

text \<open>The inner \<open>for idx in match_idxs\<close> loop; the last argument is \<open>deliver_idx\<close>.\<close>

fun pick_deliver :: "session \<Rightarrow> nat list \<Rightarrow> nat option \<Rightarrow> nat option" where
  "pick_deliver other [] deliver_idx = deliver_idx"
| "pick_deliver other (idx # rest) deliver_idx =
     (let sc = scan_channels other;
          chan_scan_flag = (if length sc > idx then sc ! idx else False);
          active_match = (active_channel other = int idx)
      in if active_match then Some idx
         else if chan_scan_flag \<and> deliver_idx = None then pick_deliver other rest (Some idx)
         else pick_deliver other rest deliver_idx)"

text \<open>One iteration of \<open>for other in self.by_ssrc.values()\<close> on the pair
  \<open>(recipients, seen)\<close>; \<open>other is sender\<close> and \<open>id(other)\<close> are the object identity.\<close>

definition recipient_step ::
  "session_manager \<Rightarrow> real \<Rightarrow> nat \<Rightarrow> string \<Rightarrow> (nat \<times> nat) list \<times> nat list \<Rightarrow> nat
     \<Rightarrow> (nat \<times> nat) list \<times> nat list" where
  "recipient_step mgr now sender sender_chan_net acc other =
     (case acc of (recipients, seen) \<Rightarrow>
        if other = sender then acc
        else if now - last_seen (heap mgr other) > 15 then acc
        else
          let other_net_ids = (case compute_networks (heap mgr other) of
                                 Inl e \<Rightarrow> []
                               | Inr (ids, a, sm) \<Rightarrow> ids)
          in if other_net_ids = [] then acc
             else
               let canon_nets = map (canonical_net mgr) other_net_ids;
                   match_idxs = filter (\<lambda>i. canon_nets ! i = sender_chan_net)
                                  [0..<length canon_nets]
               in if match_idxs = [] then acc
                  else (case pick_deliver (heap mgr other) match_idxs None of
                          Some deliver_idx \<Rightarrow>
                            if other \<notin> set seen
                            then (recipients @ [(other, deliver_idx)], other # seen)
                            else acc
                        | None \<Rightarrow> acc))"

definition audio_recipients_for ::
  "session_manager \<Rightarrow> real \<Rightarrow> int \<Rightarrow> (nat \<times> nat) list \<times> string \<times> nat \<times> string" where
  "audio_recipients_for mgr now ssrc =
     (case map_of (by_ssrc mgr) ssrc of
        None \<Rightarrow> ([], [], 0, [])
      | Some sender \<Rightarrow>
          (case (case compute_networks (heap mgr sender) of
                   Inl e \<Rightarrow> ([], [])
                 | Inr (ids, a, sm) \<Rightarrow> (ids, a)) of
             (sender_net_ids, sender_active_net0) \<Rightarrow>
               let chan_idx = nat (max 0 (min 3 (active_channel (heap mgr sender))));
                   sender_active_net = canonical_net mgr sender_active_net0;
                   sender_chan_net =
                     (if sender_net_ids \<noteq> [] \<and> length sender_net_ids > chan_idx
                      then canonical_net mgr (sender_net_ids ! chan_idx) else [])
               in if sender_chan_net = [] then ([], sender_active_net, chan_idx, sender_chan_net)
                  else
                    let recipients = fst (foldl (recipient_step mgr now sender sender_chan_net)
                                            ([], []) (map snd (by_ssrc mgr)));
                        recipients' = (if loopback (heap mgr sender)
                                       then recipients @ [(sender, chan_idx)] else recipients)
                    in (recipients', sender_active_net, chan_idx, sender_chan_net)))"

text \<open>What one iteration of the recipient loop decides for a receiver, apart from the
  \<open>seen\<close> check: the channel index to deliver on, if any.\<close>

definition delivery :: "session_manager \<Rightarrow> real \<Rightarrow> nat \<Rightarrow> string \<Rightarrow> nat \<Rightarrow> nat option" where
  "delivery mgr now sender sender_chan_net other =
     (if other = sender then None
      else if now - last_seen (heap mgr other) > 15 then None
      else
        let other_net_ids = (case compute_networks (heap mgr other) of
                               Inl e \<Rightarrow> []
                             | Inr (ids, a, sm) \<Rightarrow> ids)
        in if other_net_ids = [] then None
           else
             let canon_nets = map (canonical_net mgr) other_net_ids;
                 match_idxs = filter (\<lambda>i. canon_nets ! i = sender_chan_net)
                                [0..<length canon_nets]
             in if match_idxs = [] then None
                else pick_deliver (heap mgr other) match_idxs None)"

text \<open>The specification's wording.  Channel \<open>j\<close> of a session is on the network
  \<open>net\<close> when its network identity canonicalises to \<open>net\<close>; its scan flag is
  \<open>scan_channels[j]\<close>.  The index attached to a receiver is its active channel when
  that channel is on the network, otherwise the lowest scan-enabled channel on it.\<close>

definition chan_on_net :: "session_manager \<Rightarrow> string \<Rightarrow> session \<Rightarrow> nat \<Rightarrow> bool" where
  "chan_on_net mgr net s j =
     (case net_id_of s j of Inr nid \<Rightarrow> canonical_net mgr nid = net | Inl e \<Rightarrow> False)"

definition scan_at :: "session \<Rightarrow> nat \<Rightarrow> bool" where
  "scan_at s j = (j < length (scan_channels s) \<and> scan_channels s ! j)"

definition spec_recipient_idx :: "session_manager \<Rightarrow> string \<Rightarrow> session \<Rightarrow> nat \<Rightarrow> bool" where
  "spec_recipient_idx mgr net s i =
     (i < 4 \<and> chan_on_net mgr net s i \<and>
      (active_channel s = int i
       \<or> (scan_at s i
           \<and> \<not> list_ex (\<lambda>j. chan_on_net mgr net s j \<and> active_channel s = int j) [0..<4]
           \<and> \<not> list_ex (\<lambda>j. chan_on_net mgr net s j \<and> scan_at s j) [0..<i])))"

text \<open>All four network identities of the session can be computed: for every channel
  frequency \<open>f\<close> the value \<open>int(f * 10.0)\<close> is defined, that is, \<open>f\<close> is not a NaN and
  the binary64 product \<open>f * 10.0\<close> is not an infinity.\<close>

definition nets_computable :: "session \<Rightarrow> bool" where
  "nets_computable s = list_all (\<lambda>j. case net_id_of s j of Inr nid \<Rightarrow> True | Inl e \<Rightarrow> False) [0..<4]"

text \<open>Example states: a sender on 100.0 MHz on its active channel A, a receiver
  with channel C on 100.0 MHz and active, and a receiver whose channel A frequency is a
  NaN while its active channel B is on 100.0 MHz; a manager holding a sender and a
  receiver, without aliases.\<close>

definition example_sender :: session where
  "example_sender =
     (new_session (''AAA'', ''AAB'', ''AAC'', ''AAD'') 0)
       \<lparr>freqs := [Finite 100, Finite 0, Finite 0, Finite 0]\<rparr>"

definition example_receiver :: session where
  "example_receiver =
     (new_session (''BBA'', ''BBB'', ''BBC'', ''BBD'') 0)
       \<lparr>freqs := [Finite 0, Finite 0, Finite 100, Finite 0], active_channel := 2\<rparr>"

definition example_receiver_nan :: session where
  "example_receiver_nan =
     (new_session (''BBA'', ''BBB'', ''BBC'', ''BBD'') 0)
       \<lparr>freqs := [NaN, Finite 100, Finite 0, Finite 0], active_channel := 1\<rparr>"

text \<open>Two sessions as \<open>Session.__init__\<close> leaves them, all channels on frequency 0.0
  and channel A active, whose random prefixes for channel A came out equal.\<close>

definition example_idle_sender :: session where
  "example_idle_sender = new_session (''QQQ'', ''QQA'', ''QQB'', ''QQC'') 0"

definition example_idle_receiver :: session where
  "example_idle_receiver = new_session (''QQQ'', ''RRA'', ''RRB'', ''RRC'') 0"

definition example_manager :: "session \<Rightarrow> session \<Rightarrow> bool \<Rightarrow> session_manager" where
  "example_manager s r flag =
     \<lparr>by_ssrc = [(111, 0), (222, 1)], heap = (\<lambda>i. if i = 0 then s else r),
      net_alias = [], auto_merge_by_freq = flag\<rparr>"

section \<open>Tolerant raw-PCM decoder (server opus\_shim.py, OpusDecoder.decode\_to\_float32)\<close>

type_synonym byte = "8 word"

text \<open>\<open>reshape(-1, k)\<close>: the rows of \<open>k\<close> consecutive items.\<close>

function chunks :: "nat \<Rightarrow> 'a list \<Rightarrow> 'a list list" where
  "chunks k xs = (if k = 0 \<or> xs = [] then [] else take k xs # chunks k (drop k xs))"
  by pat_completeness auto
termination
  by (relation "measure (\<lambda>(k, xs). length xs)") auto

declare chunks.simps [simp del]

text \<open>\<open>np.frombuffer(data, dtype='<i2')\<close>: little-endian signed 16-bit samples.\<close>

definition i16_of_bytes :: "byte list \<Rightarrow> int" where
  "i16_of_bytes bs =
     (let v = int (unat (bs ! 0)) + 256 * int (unat (bs ! 1))
      in if v \<ge> 32768 then v - 65536 else v)"

text \<open>\<open>np.frombuffer(data, dtype='<f4')\<close>: one little-endian binary32 value.\<close>

definition f32_of_bytes :: "byte list \<Rightarrow> pyfloat" where
  "f32_of_bytes bs =
     (let bits = unat (bs ! 0) + 256 * unat (bs ! 1) + 65536 * unat (bs ! 2)
                   + 16777216 * unat (bs ! 3);
          neg = (bits div 2 ^ 31 = 1);
          e = (bits div 2 ^ 23) mod 256;
          m = bits mod 2 ^ 23;
          sgn = (if neg then - 1 else 1 :: real)
      in if e = 255 then (if m = 0 then (if neg then NegInf else PosInf) else NaN)
         else if e = 0 then Finite (sgn * real m / 2 ^ 149)
         else Finite (sgn * real (2 ^ 23 + m) * 2 ^ e / 2 ^ 150))"

text \<open>IEEE addition and division by a positive count, on the special values.\<close>

definition fadd :: "pyfloat \<Rightarrow> pyfloat \<Rightarrow> pyfloat" where
  "fadd a b =
     (case (a, b) of
        (NaN, _) \<Rightarrow> NaN
      | (_, NaN) \<Rightarrow> NaN
      | (PosInf, NegInf) \<Rightarrow> NaN
      | (NegInf, PosInf) \<Rightarrow> NaN
      | (PosInf, _) \<Rightarrow> PosInf
      | (_, PosInf) \<Rightarrow> PosInf
      | (NegInf, _) \<Rightarrow> NegInf
      | (_, NegInf) \<Rightarrow> NegInf
      | (Finite x, Finite y) \<Rightarrow> Finite (x + y))"

definition fmean :: "pyfloat list \<Rightarrow> pyfloat" where
  "fmean row =
     (case foldl fadd (Finite 0) row of
        Finite t \<Rightarrow> Finite (t / real (length row))
      | v \<Rightarrow> v)"

text \<open>\<open>np.clip(x, -1.0, 1.0)\<close>; a NaN stays a NaN.\<close>

definition clip1 :: "pyfloat \<Rightarrow> pyfloat" where
  "clip1 x =
     (case x of
        Finite r \<Rightarrow> Finite (min (max r (- 1)) 1)
      | PosInf \<Rightarrow> Finite 1
      | NegInf \<Rightarrow> Finite (- 1)
      | NaN \<Rightarrow> NaN)"

text \<open>The float32 branch: decode, downmix by the row mean when the sample count is
  a multiple of the channel count, clip.\<close>

definition f32_path :: "int \<Rightarrow> byte list \<Rightarrow> pyfloat list" where
  "f32_path channels data =
     (let pcm = map f32_of_bytes (chunks 4 data);
          pcm' = (if channels > 1 \<and> int (length pcm) mod channels = 0
                  then map fmean (chunks (nat channels) pcm) else pcm)
      in map clip1 pcm')"

text \<open>The int16 branch: decode, downmix by the row mean cast back to int16 (the
  cast truncates toward zero), divide by 32767.  There is no clip on this branch.\<close>

definition trunc_mean :: "int list \<Rightarrow> int" where
  "trunc_mean row =
     (let t = sum_list row; k = int (length row)
      in if t < 0 then - ((- t) div k) else t div k)"

definition i16_path :: "int \<Rightarrow> byte list \<Rightarrow> pyfloat list" where
  "i16_path channels data =
     (let pcm_i16 = map i16_of_bytes (chunks 2 data);
          pcm_i16' = (if channels > 1 \<and> int (length pcm_i16) mod channels = 0
                      then map trunc_mean (chunks (nat channels) pcm_i16) else pcm_i16)
      in map (\<lambda>v. Finite (real_of_int v / 32767)) pcm_i16')"

text \<open>The \<open>for drop in (1, 2, 3)\<close> loop; leaving it, by \<open>break\<close> or by exhaustion,
  reaches the final \<open>raise ValueError\<close>.\<close>

fun trim_loop :: "int \<Rightarrow> byte list \<Rightarrow> nat list \<Rightarrow> py_error + pyfloat list" where
  "trim_loop channels data [] = Inl ValueError"
| "trim_loop channels data (dr # rest) =
     (let m = int (length data) - int dr in
      if m \<le> 0 then Inl ValueError
      else if m mod 4 = 0 then Inr (f32_path channels (take (nat m) data))
      else if m mod 2 = 0 then Inr (i16_path channels (take (nat m) data))
      else trim_loop channels data rest)"

definition decode_to_float32 :: "int \<Rightarrow> byte list \<Rightarrow> py_error + pyfloat list" where
  "decode_to_float32 channels data =
     (if data = [] then Inr []
      else let n = length data in
        if n mod 4 = 0 then Inr (f32_path channels data)
        else if n mod 2 = 0 then Inr (i16_path channels data)
        else trim_loop channels data [1, 2, 3])"

text \<open>A sample lies within \<open>[-1, 1]\<close>.\<close>

definition in_unit_range :: "pyfloat \<Rightarrow> bool" where
  "in_unit_range x = (case x of Finite r \<Rightarrow> - 1 \<le> r \<and> r \<le> 1 | _ \<Rightarrow> False)"

section \<open>Client mix step (app.py, RadioApp)\<close>

text \<open>
  The Tk variables the mix step reads.  The constructor builds exactly three scan
  flags and three volumes for channels A to C; channel D has its own
  \<open>scan_d_var\<close> and \<open>chan_d_vol_var\<close>.
\<close>

record radio_app =
  active_chan :: int
  scan_vars :: "bool \<times> bool \<times> bool"
  scan_d_var :: bool
  chan_vol_vars :: "int \<times> int \<times> int"
  chan_d_vol_var :: int

definition AUDIO_BLOCK :: nat where
  "AUDIO_BLOCK = 480"

definition triple_at :: "'a \<times> 'a \<times> 'a \<Rightarrow> int \<Rightarrow> 'a" where
  "triple_at t i = (case t of (a, b, c) \<Rightarrow> if i = 0 then a else if i = 1 then b else c)"

definition snap_10 :: "int \<Rightarrow> int" where
  "snap_10 v = max 0 (min 100 ((v div 10) * 10))"

definition snap_10_min30 :: "int \<Rightarrow> int" where
  "snap_10_min30 v = max 30 (snap_10 v)"

definition channel_is_audible :: "radio_app \<Rightarrow> int \<Rightarrow> bool" where
  "channel_is_audible app idx =
     (if 0 \<le> idx \<and> idx < 3 then
        (if idx = active_chan app then True else triple_at (scan_vars app) idx)
      else if idx = 3 then True
      else False)"

definition gain :: "int \<Rightarrow> real" where
  "gain pct0 =
     (let pct = max 0 (min 100 pct0)
      in if pct \<le> 50 then real_of_int pct / 50
         else 1 + real_of_int (pct - 50) / 50)"

definition get_channel_volume :: "radio_app \<Rightarrow> int \<Rightarrow> real" where
  "get_channel_volume app idx =
     (if 0 \<le> idx \<and> idx < 3 then gain (snap_10 (triple_at (chan_vol_vars app) idx))
      else if idx = 3 then gain (snap_10_min30 (chan_d_vol_var app))
      else 1)"

text \<open>A queued frame: its samples and the channel tag (\<open>None\<close> when untagged).\<close>

record rx_item =
  buf :: "real list"
  chan_idx :: "int option"

text \<open>\<open>mix[:len(arr)] += arr * gain\<close>: an array longer than \<open>mix\<close> cannot be
  broadcast and raises.\<close>

definition add_scaled :: "real list \<Rightarrow> real list \<Rightarrow> real \<Rightarrow> py_error + real list" where
  "add_scaled mix arr g =
     (if length arr > length mix then Inl ValueError
      else Inr (map2 (\<lambda>m a. m + a * g) (take (length arr) mix) arr @ drop (length arr) mix))"

text \<open>The \<open>for item in batch\<close> loop of \<open>_dequeue_rx_frame\<close> on the accumulator.\<close>

fun mix_batch :: "radio_app \<Rightarrow> rx_item list \<Rightarrow> real list \<Rightarrow> py_error + real list" where
  "mix_batch app [] mix = Inr mix"
| "mix_batch app (item # rest) mix =
     (if (case chan_idx item of Some c \<Rightarrow> \<not> channel_is_audible app c | None \<Rightarrow> False)
      then mix_batch app rest mix
      else
        let g = (case chan_idx item of
                   Some c \<Rightarrow> get_channel_volume app c
                 | None \<Rightarrow> get_channel_volume app (active_chan app))
        in case add_scaled mix (buf item) g of
             Inl e \<Rightarrow> Inl e
           | Inr mix' \<Rightarrow> mix_batch app rest mix')"

text \<open>The soft limiter applied to the accumulated frame.\<close>

definition soft_limit :: "real list \<Rightarrow> real list" where
  "soft_limit mix =
     (let peak = (if mix = [] then 0 else Max (set (map abs mix)))
      in if peak > 1 then map (\<lambda>x. x / peak) mix else mix)"

text \<open>The mix step on a collected batch; \<open>None\<close> is the \<open>return None\<close> of the
  handler.\<close>

definition mix_step :: "radio_app \<Rightarrow> rx_item list \<Rightarrow> real list option" where
  "mix_step app batch =
     (case mix_batch app batch (replicate AUDIO_BLOCK 0) of
        Inl e \<Rightarrow> None
      | Inr mix \<Rightarrow> Some (soft_limit mix))"

text \<open>The specification's wording of the mix: channel \<open>c\<close> is audible when it is the
  active channel or its scan flag is enabled (channel D has the flag \<open>scan_d_var\<close>); a
  frame adds \<open>sample * channelGain(c)\<close> when its channel is audible and nothing
  otherwise.\<close>

definition scan_flag :: "radio_app \<Rightarrow> int \<Rightarrow> bool" where
  "scan_flag app c = (if c = 3 then scan_d_var app else triple_at (scan_vars app) c)"

definition spec_audible :: "radio_app \<Rightarrow> int \<Rightarrow> bool" where
  "spec_audible app c = (c = active_chan app \<or> scan_flag app c)"

definition contribution :: "radio_app \<Rightarrow> rx_item \<Rightarrow> nat \<Rightarrow> real" where
  "contribution app item k =
     (case chan_idx item of
        Some c \<Rightarrow> if spec_audible app c \<and> k < length (buf item)
                  then buf item ! k * get_channel_volume app c else 0
      | None \<Rightarrow> 0)"

section \<open>Per-sender decoder cache (client opus\_shim.py, OpusShim)\<close>

text \<open>
  The shim's cache \<open>_decoders\<close> as an association list in insertion order from sender
  key to decoder instance.  A decoder instance is an opaque library object, named by
  a number.
\<close>

record opus_shim =
  enabled :: bool
  dec :: nat
  decoders :: "(int \<times> nat) list"

text \<open>The state the constructor leaves.\<close>

definition new_shim :: "bool \<Rightarrow> nat \<Rightarrow> opus_shim" where
  "new_shim ok d = \<lparr>enabled = ok, dec = d, decoders = []\<rparr>"

text \<open>\<open>OpusShim._get_decoder\<close>.  The argument \<open>made\<close> is what \<open>Decoder(rate, channels)\<close>
  yields when it is called: a new instance, or \<open>None\<close> when the library raises.\<close>

definition get_decoder :: "opus_shim \<Rightarrow> int option \<Rightarrow> nat option \<Rightarrow> nat option \<times> opus_shim" where
  "get_decoder s key made =
     (if \<not> enabled s then (None, s)
      else (case key of
              None \<Rightarrow> (Some (dec s), s)
            | Some k \<Rightarrow>
                (case map_of (decoders s) k of
                   Some d \<Rightarrow> (Some d, s)
                 | None \<Rightarrow>
                     (case made of
                        None \<Rightarrow> (None, s)
                      | Some d \<Rightarrow>
                          let ds = AList.update k d (decoders s);
                              ds' = (if length ds > 32
                                     then (let oldest = fst (hd ds)
                                           in if oldest \<noteq> k then AList.delete oldest ds else ds)
                                     else ds)
                          in (Some d, s\<lparr>decoders := ds'\<rparr>)))))"

text \<open>\<open>OpusShim.decode_to_float32\<close>; \<open>lib\<close> is the library's \<open>Decoder.decode\<close>,
  which returns 16-bit samples or raises.\<close>

definition shim_decode_to_float32 ::
  "(nat \<Rightarrow> byte list \<Rightarrow> py_error + int list) \<Rightarrow> opus_shim \<Rightarrow> byte list \<Rightarrow> int option
     \<Rightarrow> nat option \<Rightarrow> (py_error + real list option) \<times> opus_shim" where
  "shim_decode_to_float32 lib s b ssrc made =
     (if \<not> enabled s then (Inr None, s)
      else (case get_decoder s ssrc made of
              (None, s') \<Rightarrow> (Inr None, s')
            | (Some d, s') \<Rightarrow>
                (case lib d b of
                   Inl e \<Rightarrow> (Inl e, s')
                 | Inr pcm16 \<Rightarrow> (Inr (Some (map (\<lambda>v. real_of_int v / 32767) pcm16)), s'))))"

text \<open>A sequence of decode calls, each with its sender key and what the decoder
  constructor would yield.\<close>

definition decode_calls ::
  "(nat \<Rightarrow> byte list \<Rightarrow> py_error + int list) \<Rightarrow> opus_shim
     \<Rightarrow> (byte list \<times> int option \<times> nat option) list \<Rightarrow> opus_shim" where
  "decode_calls lib s calls =
     foldl (\<lambda>s (b, ssrc, made). snd (shim_decode_to_float32 lib s b ssrc made)) s calls"

section \<open>Properties of the frequency suffix\<close>

subsection \<open>Rounding to binary64\<close>

lemma binary64_limit_big: "2 ^ 53 < binary64_limit"
  unfolding binary64_limit_def by (rule power_strict_increasing) simp_all

lemma round_half_even_of_int: "round_half_even (of_int n) = n"
  by (simp add: round_half_even_def)

lemma round_half_even_le:
  assumes "q \<le> of_int K"
  shows "round_half_even q \<le> K"
proof -
  from assms have f: "\<lfloor>q\<rfloor> \<le> K" by (simp add: floor_le_iff)
  show ?thesis
  proof (cases "\<lfloor>q\<rfloor> = K")
    case True
    with assms have "q - of_int \<lfloor>q\<rfloor> \<le> 0" by simp
    with True show ?thesis by (simp add: round_half_even_def Let_def)
  next
    case False
    with f have "\<lfloor>q\<rfloor> + 1 \<le> K" by simp
    then show ?thesis by (auto simp add: round_half_even_def Let_def)
  qed
qed

lemma round_half_even_nonneg: "0 \<le> q \<Longrightarrow> 0 \<le> round_half_even q"
  by (auto simp add: round_half_even_def Let_def)

lemma binary64_exponent_ge: "- 1022 \<le> binary64_exponent x"
  by (simp add: binary64_exponent_def)

lemma binary64_exponent_le:
  assumes "\<bar>x\<bar> < 2 ^ n"
  shows "binary64_exponent x \<le> max (- 1022) (int n - 1)"
proof -
  let ?g = guard_bits
  from assms have "\<bar>x\<bar> * 2 ^ ?g < 2 ^ n * 2 ^ ?g" by simp
  then have "\<bar>x\<bar> * 2 ^ ?g < of_int (2 ^ (n + ?g))" by (simp add: power_add)
  then have "\<lfloor>\<bar>x\<bar> * 2 ^ ?g\<rfloor> < 2 ^ (n + ?g)" by (simp only: floor_less_iff)
  then have "bitlen \<lfloor>\<bar>x\<bar> * 2 ^ ?g\<rfloor> \<le> int (n + ?g)"
    by (simp only: bitlen_le_iff_power nat_int) simp
  then show ?thesis by (simp add: binary64_exponent_def)
qed

lemma round64_range:
  assumes "0 \<le> x" "x \<le> of_nat N" "N < 2 ^ 53"
  shows "\<exists>y. round64 x = Finite y \<and> 0 \<le> y \<and> y \<le> of_nat N"
proof -
  define e where "e = binary64_exponent x"
  from assms(3) have N53: "(of_nat N :: real) < 2 ^ 53"
    by (metis of_nat_less_iff of_nat_numeral of_nat_power)
  with assms have "\<bar>x\<bar> < 2 ^ 53" by simp
  from binary64_exponent_le[OF this] binary64_exponent_ge[of x]
  have e: "- 1022 \<le> e" "e \<le> 52" by (simp_all add: e_def)
  define k where "k = nat (52 - e)"
  from e have ulp: "pow2 (e - 52) = 1 / 2 ^ k"
    by (cases "e = 52") (simp_all add: pow2_def k_def)
  define r where "r = round_half_even (x * 2 ^ k)"
  have "x * 2 ^ k \<le> of_int (int N * 2 ^ k)" using assms(2) by simp
  then have rle: "r \<le> int N * 2 ^ k" unfolding r_def by (rule round_half_even_le)
  have r0: "0 \<le> r" unfolding r_def using assms(1) by (intro round_half_even_nonneg) simp
  define y where "y = of_int r / (2 ^ k :: real)"
  from r0 have y0: "0 \<le> y" by (simp add: y_def)
  from rle have "of_int r \<le> (of_int (int N * 2 ^ k) :: real)" by (simp only: of_int_le_iff)
  then have yN: "y \<le> of_nat N" by (simp add: y_def divide_le_eq)
  from N53 binary64_limit_big have "(of_nat N :: real) < binary64_limit" by linarith
  with yN y0 have "\<not> binary64_limit \<le> y" "\<not> y \<le> - binary64_limit" by auto
  then have "round64 x = Finite y"
    by (simp add: round64_def Let_def e_def[symmetric] ulp r_def[symmetric] y_def)
  with y0 yN show ?thesis by blast
qed

lemma bitlen_eqI: "2 ^ b \<le> M \<Longrightarrow> M < 2 ^ Suc b \<Longrightarrow> bitlen M = int (Suc b)"
proof (rule antisym)
  assume "M < 2 ^ Suc b"
  then show "bitlen M \<le> int (Suc b)" by (simp only: bitlen_le_iff_power nat_int) simp
next
  assume "2 ^ b \<le> M"
  then show "int (Suc b) \<le> bitlen M" by (simp only: bitlen_ge_iff_power nat_int) simp
qed

lemma binary64_exponent_dyadic:
  assumes "0 < M" "s \<le> guard_bits"
  shows "binary64_exponent (of_int M / 2 ^ s) = max (- 1022) (bitlen M - 1 - int s)"
proof -
  let ?g = guard_bits
  let ?x = "real_of_int M / 2 ^ s"
  from assms(2) have g: "(2::real) ^ ?g = 2 ^ s * 2 ^ (?g - s)"
    by (simp add: power_add[symmetric])
  from assms(1) have "\<bar>?x\<bar> = ?x" by simp
  then have "\<bar>?x\<bar> * 2 ^ ?g = ?x * (2 ^ s * 2 ^ (?g - s))" by (simp only: g)
  also have "\<dots> = of_int (M * 2 ^ (?g - s))" by simp
  finally have "\<lfloor>\<bar>?x\<bar> * 2 ^ ?g\<rfloor> = M * 2 ^ (?g - s)"
    by (simp only: floor_of_int)
  moreover have "bitlen (M * 2 ^ (?g - s)) = bitlen M + int (?g - s)"
    using assms(1) by (rule bitlen_pow2)
  ultimately show ?thesis using assms(2) by (simp add: binary64_exponent_def)
qed

lemma binary64_limit_pos: "0 < binary64_limit"
  by (simp add: binary64_limit_def)

lemma round64_zero: "round64 0 = Finite 0"
  using binary64_limit_pos by (simp add: round64_def Let_def round_half_even_def)

lemma round64_dyadic:
  assumes "0 < M" "s \<le> guard_bits" "2 ^ b \<le> M" "M < 2 ^ Suc b" "- 1022 \<le> int b - int s"
  shows "round64 (of_int M / 2 ^ s) =
     (let ulp = pow2 (int b - int s - 52);
          y = of_int (round_half_even (of_int M / 2 ^ s / ulp)) * ulp
      in if binary64_limit \<le> y then PosInf
         else if y \<le> - binary64_limit then NegInf
         else Finite y)"
proof -
  from bitlen_eqI[OF assms(3,4)] binary64_exponent_dyadic[OF assms(1,2)] assms(5)
  have "binary64_exponent (of_int M / 2 ^ s) = int b - int s" by simp
  then show ?thesis by (simp add: round64_def)
qed

lemma guard_52: "52 \<le> guard_bits" "46 \<le> guard_bits" "43 \<le> guard_bits"
  by (simp_all add: guard_bits_def)

lemma times10_examples:
  "times10 (Finite (3152519739159347 / 2 ^ 52)) = Finite 7"
  "times10 (Finite (7198722529375027 / 2 ^ 46)) = Finite 1023"
  "times10 (Finite (8795213412905779 / 2 ^ 43)) = Finite 9999"
proof -
  have lim: "\<not> binary64_limit \<le> 7" "\<not> binary64_limit \<le> 1023" "\<not> binary64_limit \<le> 9999"
    "\<not> 7 \<le> - binary64_limit" "\<not> 1023 \<le> - binary64_limit" "\<not> 9999 \<le> - binary64_limit"
    using binary64_limit_big by simp_all
  have a: "(3152519739159347 / 2 ^ 52 * 10 :: real) = of_int 31525197391593470 / 2 ^ 52" by simp
  have "round64 (of_int 31525197391593470 / 2 ^ 52) = Finite 7"
    by (subst round64_dyadic[where b = 54])
       (simp_all add: guard_52 pow2_def round_half_even_def Let_def lim)
  with a show "times10 (Finite (3152519739159347 / 2 ^ 52)) = Finite 7"
    by (simp only: times10_def pyfloat.case)
  have b: "(7198722529375027 / 2 ^ 46 * 10 :: real) = of_int 71987225293750270 / 2 ^ 46" by simp
  have "round64 (of_int 71987225293750270 / 2 ^ 46) = Finite 1023"
    by (subst round64_dyadic[where b = 55])
       (simp_all add: guard_52 pow2_def round_half_even_def Let_def lim)
  with b show "times10 (Finite (7198722529375027 / 2 ^ 46)) = Finite 1023"
    by (simp only: times10_def pyfloat.case)
  have c: "(8795213412905779 / 2 ^ 43 * 10 :: real) = of_int 87952134129057790 / 2 ^ 43" by simp
  have "round64 (of_int 87952134129057790 / 2 ^ 43) = Finite 9999"
    by (subst round64_dyadic[where b = 56])
       (simp_all add: guard_52 pow2_def round_half_even_def Let_def lim)
  with c show "times10 (Finite (8795213412905779 / 2 ^ 43)) = Finite 9999"
    by (simp only: times10_def pyfloat.case)
qed

subsection \<open>Four digits\<close>

text \<open>A product at or beyond \<open>2 ^ 1024\<close> rounds to an infinity.\<close>

lemma round_half_even_ge: "of_int K \<le> q \<Longrightarrow> K \<le> round_half_even q"
proof -
  assume "of_int K \<le> q"
  then have "K \<le> \<lfloor>q\<rfloor>" by (simp add: le_floor_iff)
  then show ?thesis by (simp add: round_half_even_def Let_def)
qed

lemma round64_overflow:
  assumes "binary64_limit \<le> x"
  shows "round64 x = PosInf"
proof -
  define M where "M = \<lfloor>\<bar>x\<bar> * 2 ^ guard_bits\<rfloor>"
  define b where "b = bitlen M"
  from assms binary64_limit_pos have x: "0 < x" "\<bar>x\<bar> = x" by simp_all
  have "(2::real) ^ (1024 + guard_bits) = binary64_limit * 2 ^ guard_bits"
    unfolding binary64_limit_def by (simp only: power_add)
  also from assms have "\<dots> \<le> x * 2 ^ guard_bits" by simp
  finally have "of_int ((2::int) ^ (1024 + guard_bits)) \<le> x * 2 ^ guard_bits" by simp
  then have "(2::int) ^ (1024 + guard_bits) \<le> M"
    unfolding M_def x by (simp only: le_floor_iff)
  then have "int (Suc (1024 + guard_bits)) \<le> b"
    unfolding b_def by (simp only: bitlen_ge_iff_power nat_int) simp
  then have b: "1025 + int guard_bits \<le> b" by simp
  define n where "n = nat (b - int guard_bits - 1)"
  from b have n: "1024 \<le> n" "b - int guard_bits - 1 = int n" by (simp_all add: n_def)
  then have e: "binary64_exponent x = int n"
    unfolding binary64_exponent_def M_def[symmetric] b_def[symmetric] by simp
  have "b \<le> bitlen M" by (simp add: b_def)
  then have "b \<le> 0 \<or> (2::int) ^ (nat b - 1) \<le> M" by (simp only: bitlen_ge_iff_power)
  with b have "(2::int) ^ (nat b - 1) \<le> M" by linarith
  moreover have "nat b - 1 = n + guard_bits"
  proof -
    from n(2) have "b = int (n + guard_bits) + 1" by linarith
    then show ?thesis by (simp only: nat_int nat_add_distrib add_diff_cancel_right' nat_1)
  qed
  ultimately have "(2::int) ^ (n + guard_bits) \<le> M" by simp
  then have "of_int ((2::int) ^ (n + guard_bits)) \<le> x * 2 ^ guard_bits"
    unfolding M_def x by (simp only: le_floor_iff)
  then have "(2::real) ^ n * 2 ^ guard_bits \<le> x * 2 ^ guard_bits" by (simp add: power_add)
  then have lo: "(2::real) ^ n \<le> x" by simp
  define k where "k = n - 52"
  from n have nk: "n = k + 52" by (simp add: k_def)
  have ulp: "pow2 (int n - 52) = 2 ^ k" using n by (simp add: pow2_def k_def nat_diff_distrib)
  from lo have "(2::real) ^ 52 * 2 ^ k \<le> x" by (simp add: nk power_add mult.commute)
  then have "of_int ((2::int) ^ 52) \<le> x / 2 ^ k" by (simp add: pos_le_divide_eq)
  then have "(2::int) ^ 52 \<le> round_half_even (x / 2 ^ k)" by (rule round_half_even_ge)
  then have "(2::real) ^ 52 \<le> of_int (round_half_even (x / 2 ^ k))"
    by (metis of_int_le_iff of_int_numeral of_int_power)
  then have "(2::real) ^ 52 * 2 ^ k \<le> of_int (round_half_even (x / 2 ^ k)) * 2 ^ k" by simp
  moreover have "binary64_limit \<le> (2::real) ^ 52 * 2 ^ k"
  proof -
    have "(2::real) ^ 1024 \<le> 2 ^ n" using n(1) by (intro power_increasing) simp_all
    then show ?thesis by (simp only: binary64_limit_def nk power_add mult.commute)
  qed
  ultimately have "binary64_limit \<le> of_int (round_half_even (x / 2 ^ k)) * 2 ^ k" by linarith
  then show ?thesis by (simp add: round64_def Let_def e ulp)
qed

subsection \<open>Four decimal digits\<close>

lemma digit_char_mod: "digit_char (n mod 10) = digit_char n"
  by (simp add: digit_char_def)

lemma digit_char_0: "digit_char 0 = CHR ''0''"
  by (simp add: digit_char_def)

lemma dec_digits_small: "n < 10 \<Longrightarrow> dec_digits n = [digit_char n]"
  by (subst dec_digits.simps) simp

lemma dec_digits_step: "10 \<le> n \<Longrightarrow> dec_digits n = dec_digits (n div 10) @ [digit_char n]"
  by (subst dec_digits.simps) (simp add: digit_char_mod)

lemma replicate_small:
  "replicate 3 c = [c, c, c]" "replicate 2 c = [c, c]" "replicate (Suc 0) c = [c]"
  by (simp_all add: numeral_3_eq_3 numeral_2_eq_2)

lemma small_quotients:
  "n < 10 \<Longrightarrow> n div 10 = 0" "n < 100 \<Longrightarrow> n div 100 = 0" "n < 1000 \<Longrightarrow> n div 1000 = 0"
  for n :: nat
  by simp_all

lemma fmt_04d_four_digits:
  assumes "n \<le> 9999"
  shows "fmt_04d (int n) = four_digits n"
proof -
  have q: "n div 100 = n div 10 div 10" "n div 1000 = n div 10 div 10 div 10"
    by (simp_all add: div_mult2_eq[symmetric])
  consider "n < 10" | "10 \<le> n" "n < 100" | "100 \<le> n" "n < 1000" | "1000 \<le> n"
    by linarith
  then have "zero_pad 4 (dec_digits n) = four_digits n"
  proof cases
    case 1
    then have "dec_digits n = [digit_char n]" by (rule dec_digits_small)
    with 1 show ?thesis
      by (simp add: zero_pad_def four_digits_def digit_char_0 replicate_small small_quotients)
  next
    case 2
    then have "n div 10 < 10" by simp
    with 2 have "dec_digits n = [digit_char (n div 10), digit_char n]"
      by (simp add: dec_digits_step dec_digits_small)
    with 2 show ?thesis
      by (simp add: zero_pad_def four_digits_def digit_char_0 replicate_small small_quotients)
  next
    case 3
    then have "10 \<le> n div 10" "n div 10 div 10 < 10" by simp_all
    with 3 have "dec_digits n = [digit_char (n div 10 div 10), digit_char (n div 10), digit_char n]"
      by (simp add: dec_digits_step dec_digits_small)
    with 3 show ?thesis
      by (simp add: zero_pad_def four_digits_def digit_char_0 replicate_small small_quotients q(1))
  next
    case 4
    with assms have "10 \<le> n div 10" "10 \<le> n div 10 div 10" "n div 10 div 10 div 10 < 10"
      by simp_all
    with 4 have "dec_digits n = [digit_char (n div 10 div 10 div 10), digit_char (n div 10 div 10),
        digit_char (n div 10), digit_char n]"
      by (simp add: dec_digits_step dec_digits_small)
    then show ?thesis
      by (simp add: zero_pad_def four_digits_def q)
  qed
  then show ?thesis by (simp add: fmt_04d_def)
qed


subsection \<open>The suffix of a frequency\<close>

lemma binary64_exponent_abs: "binary64_exponent \<bar>x\<bar> = binary64_exponent x"
  by (simp add: binary64_exponent_def)

lemma round64_of_int:
  assumes "\<bar>n\<bar> < 2 ^ 53"
  shows "round64 (of_int n) = Finite (of_int n)"
proof (cases "n = 0")
  case True
  then show ?thesis by (simp add: round64_zero)
next
  case False
  then have pos: "0 < \<bar>n\<bar>" by simp
  then have b1: "1 \<le> bitlen \<bar>n\<bar>" by (simp add: bitlen_ge_iff_power)
  from assms have b53: "bitlen \<bar>n\<bar> \<le> 53" by (simp only: bitlen_le_iff_power) simp
  have "binary64_exponent (of_int \<bar>n\<bar> / 2 ^ 0) = max (- 1022) (bitlen \<bar>n\<bar> - 1 - int 0)"
    using pos by (rule binary64_exponent_dyadic) simp
  with b1 binary64_exponent_abs[of "real_of_int n"]
  have e: "binary64_exponent (of_int n) = bitlen \<bar>n\<bar> - 1" by simp
  define k where "k = nat (53 - bitlen \<bar>n\<bar>)"
  from b1 b53 have ulp: "pow2 (bitlen \<bar>n\<bar> - 53) = 1 / 2 ^ k"
    by (cases "bitlen \<bar>n\<bar> = 53") (simp_all add: pow2_def k_def)
  have q: "round_half_even (real_of_int n * 2 ^ k) = n * 2 ^ k"
    using round_half_even_of_int[of "n * 2 ^ k"] by simp
  from assms have "\<bar>real_of_int n\<bar> < 2 ^ 53"
    by (metis of_int_abs of_int_less_numeral_power_cancel_iff)
  with binary64_limit_big have "\<not> binary64_limit \<le> of_int n" "\<not> of_int n \<le> - binary64_limit"
    by linarith+
  then show ?thesis
    by (simp add: round64_def Let_def e ulp q)
qed

lemma py_int_times10_int:
  "\<bar>n\<bar> < 2 ^ 53 \<Longrightarrow> r * 10 = of_int n \<Longrightarrow> py_int (times10 (Finite r)) = Inr n"
  using round64_of_int[of n] by (simp add: times10_def py_int_def)

lemma clamp_four_digits:
  "fmt_04d (if (if n < 0 then 0 else n) > 9999 then 9999 else (if n < 0 then 0 else n))
     = four_digits (nat (max 0 (min 9999 n)))"
proof -
  define c where "c = max 0 (min 9999 n)"
  have c: "(if (if n < 0 then 0 else n) > 9999 then 9999 else (if n < 0 then 0 else n)) = c"
    by (simp add: c_def max_def min_def)
  have "0 \<le> c" "nat c \<le> 9999" by (simp_all add: c_def)
  with fmt_04d_four_digits[of "nat c"] have "fmt_04d c = four_digits (nat c)" by simp
  with c show ?thesis by (simp only: c_def)
qed

lemma freq_suffix_spec: "freq_suffix f = spec_freq_suffix f"
proof (cases "py_int (times10 f)")
  case (Inl e)
  then show ?thesis by (simp add: freq_suffix_def spec_freq_suffix_def)
next
  case (Inr n)
  then show ?thesis
    by (simp only: freq_suffix_def spec_freq_suffix_def sum.case Let_def clamp_four_digits)
qed

lemma py_int_times10_range:
  assumes "0 \<le> f" "f \<le> 999.9"
  shows "\<exists>n. py_int (times10 (Finite f)) = Inr n \<and> 0 \<le> n \<and> n \<le> 9999"
proof -
  from assms have "0 \<le> f * 10" "f * 10 \<le> of_nat 9999" by simp_all
  from round64_range[OF this] obtain y
    where y: "round64 (f * 10) = Finite y" "0 \<le> y" "y \<le> 9999" by auto
  then have "py_int (times10 (Finite f)) = Inr \<lfloor>y\<rfloor>" by (simp add: times10_def py_int_def)
  moreover from y have "0 \<le> \<lfloor>y\<rfloor>" "\<lfloor>y\<rfloor> \<le> 9999" by (simp_all add: floor_le_iff)
  ultimately show ?thesis by blast
qed

lemma freq_suffix_values:
  "freq_suffix (Finite 100) = Inr ''1000''" "freq_suffix (Finite 0) = Inr ''0000''"
  "freq_suffix (Finite (- 5)) = Inr ''0000''" "freq_suffix (Finite 1000) = Inr ''9999''"
proof -
  have "py_int (times10 (Finite 100)) = Inr 1000" by (rule py_int_times10_int) simp_all
  then show "freq_suffix (Finite 100) = Inr ''1000''"
    by (simp add: freq_suffix_spec spec_freq_suffix_def four_digits_def digit_char_def)
  have "py_int (times10 (Finite 0)) = Inr 0" by (rule py_int_times10_int) simp_all
  then show "freq_suffix (Finite 0) = Inr ''0000''"
    by (simp add: freq_suffix_spec spec_freq_suffix_def four_digits_def digit_char_def)
  have "py_int (times10 (Finite (- 5))) = Inr (- 50)" by (rule py_int_times10_int) simp_all
  then show "freq_suffix (Finite (- 5)) = Inr ''0000''"
    by (simp add: freq_suffix_spec spec_freq_suffix_def four_digits_def digit_char_def)
  have "py_int (times10 (Finite 1000)) = Inr 10000" by (rule py_int_times10_int) simp_all
  then show "freq_suffix (Finite 1000) = Inr ''9999''"
    by (simp add: freq_suffix_spec spec_freq_suffix_def four_digits_def digit_char_def)
qed

text \<open>The suffix is defined exactly when the binary64 product \<open>f * 10.0\<close> is finite;
  a finite frequency whose product overflows raises \<open>OverflowError\<close>.\<close>

lemma freq_suffix_defined: "(\<exists>s. freq_suffix f = Inr s) \<longleftrightarrow> (\<exists>y. times10 f = Finite y)"
  by (cases "times10 f") (simp_all add: freq_suffix_def py_int_def Let_def)

lemma times10_overflow: "binary64_limit \<le> r * 10 \<Longrightarrow> times10 (Finite r) = PosInf"
  by (simp add: times10_def round64_overflow)

lemma times10_overflow_example: "times10 (Finite (2 ^ 1023)) = PosInf"
proof -
  have "(2::real) ^ 1024 = 2 ^ 1023 * 2 ^ 1" by (simp only: power_add[symmetric]) simp
  moreover have "(2::real) ^ 1023 * 2 ^ 1 \<le> 2 ^ 1023 * 10" by (intro mult_left_mono) simp_all
  ultimately have "binary64_limit \<le> 2 ^ 1023 * 10" by (simp only: binary64_limit_def)
  then show ?thesis by (rule times10_overflow)
qed

lemma freq_suffix_overflow_example: "freq_suffix (Finite (2 ^ 1023)) = Inl OverflowError"
  by (simp only: freq_suffix_def times10_overflow_example py_int_def pyfloat.case sum.case)

text \<open>
  Claim C5.  For every frequency \<open>f\<close> in \<open>[0, 999.9]\<close>, \<open>freq_suffix f\<close> is
  \<open>int(f * 10)\<close> clamped to \<open>[0, 9999]\<close> and written as four zero-padded digits, where
  \<open>int(f * 10)\<close> is the truncation of the binary64 product; on that range the
  truncated product already lies in \<open>[0, 9999]\<close>.  \<open>freq_suffix(-5)\<close> is \<open>0000\<close> and
  \<open>freq_suffix(1000.0)\<close> is \<open>9999\<close>.
\<close>

theorem freq_suffix_clamped_four_digits:
  "(0 \<le> f \<and> f \<le> 999.9 \<longrightarrow>
       freq_suffix (Finite f) = spec_freq_suffix (Finite f)
       \<and> (\<exists>n. py_int (times10 (Finite f)) = Inr n \<and> 0 \<le> n \<and> n \<le> 9999
              \<and> freq_suffix (Finite f) = Inr (four_digits (nat n))
              \<and> length (four_digits (nat n)) = 4))
   \<and> freq_suffix (Finite (- 5)) = Inr ''0000''
   \<and> freq_suffix (Finite 1000) = Inr ''9999''"
proof (intro conjI impI)
  assume r: "0 \<le> f \<and> f \<le> 999.9"
  show "freq_suffix (Finite f) = spec_freq_suffix (Finite f)" by (rule freq_suffix_spec)
  from r py_int_times10_range[of f] obtain n
    where n: "py_int (times10 (Finite f)) = Inr n" "0 \<le> n" "n \<le> 9999" by blast
  then have "freq_suffix (Finite f) = Inr (four_digits (nat n))"
    by (simp add: freq_suffix_spec spec_freq_suffix_def)
  moreover have "length (four_digits (nat n)) = 4" by (simp add: four_digits_def)
  ultimately show "\<exists>n. py_int (times10 (Finite f)) = Inr n \<and> 0 \<le> n \<and> n \<le> 9999
      \<and> freq_suffix (Finite f) = Inr (four_digits (nat n))
      \<and> length (four_digits (nat n)) = 4" using n by blast
qed (simp_all add: freq_suffix_values)

text \<open>The theorem at the binary64 values of \<open>0.7\<close>, \<open>102.3\<close> and \<open>999.9\<close>, whose
  products with \<open>10.0\<close> round up to \<open>7\<close>, \<open>1023\<close> and \<open>9999\<close>.\<close>

theorem freq_suffix_clamped_four_digits_witness:
  "0 \<le> (8795213412905779 / 2 ^ 43 :: real) \<and> (8795213412905779 / 2 ^ 43 :: real) \<le> 999.9
   \<and> freq_suffix (Finite (8795213412905779 / 2 ^ 43)) = Inr ''9999''
   \<and> freq_suffix (Finite (3152519739159347 / 2 ^ 52)) = Inr ''0007''
   \<and> freq_suffix (Finite (7198722529375027 / 2 ^ 46)) = Inr ''1023''"
proof -
  have h: "0 \<le> (3152519739159347 / 2 ^ 52 :: real) \<and> (3152519739159347 / 2 ^ 52 :: real) \<le> 999.9"
    "0 \<le> (7198722529375027 / 2 ^ 46 :: real) \<and> (7198722529375027 / 2 ^ 46 :: real) \<le> 999.9"
    "0 \<le> (8795213412905779 / 2 ^ 43 :: real) \<and> (8795213412905779 / 2 ^ 43 :: real) \<le> 999.9"
    by simp_all
  have d: "four_digits 7 = ''0007''" "four_digits 1023 = ''1023''" "four_digits 9999 = ''9999''"
    by (simp_all add: four_digits_def digit_char_def)
  from freq_suffix_clamped_four_digits[of "3152519739159347 / 2 ^ 52"] h(1) times10_examples(1) d
  have 1: "freq_suffix (Finite (3152519739159347 / 2 ^ 52)) = Inr ''0007''"
    by (auto simp add: py_int_def)
  from freq_suffix_clamped_four_digits[of "7198722529375027 / 2 ^ 46"] h(2) times10_examples(2) d
  have 2: "freq_suffix (Finite (7198722529375027 / 2 ^ 46)) = Inr ''1023''"
    by (auto simp add: py_int_def)
  from freq_suffix_clamped_four_digits[of "8795213412905779 / 2 ^ 43"] h(3) times10_examples(3) d
  have 3: "freq_suffix (Finite (8795213412905779 / 2 ^ 43)) = Inr ''9999''"
    by (auto simp add: py_int_def)
  from h(3) 1 2 3 show ?thesis by blast
qed

section \<open>Properties of alias canonicalisation\<close>

subsection \<open>The alias walk\<close>

lemma walk_unfold:
  "fst (alias_loop al cur seen had) =
     (case map_of al cur of
        Some nxt \<Rightarrow> if cur \<notin> set seen then fst (alias_loop al nxt (cur # seen) True) else cur
      | None \<Rightarrow> cur)"
  by (subst alias_loop.simps) (simp split: option.splits)

lemma walk_seen_set:
  "set s1 = set s2 \<Longrightarrow> fst (alias_loop al cur s1 h1) = fst (alias_loop al cur s2 h2)"
proof (induction al cur s1 h1 arbitrary: s2 h2 rule: alias_loop.induct)
  case (1 al cur seen had)
  show ?case
  proof (cases "map_of al cur")
    case None
    then show ?thesis by (simp add: walk_unfold)
  next
    case (Some nxt)
    show ?thesis
    proof (cases "cur \<in> set seen")
      case True
      with Some "1.prems" show ?thesis by (simp add: walk_unfold)
    next
      case False
      from "1.prems" have "set (cur # seen) = set (cur # s2)" by simp
      from "1.IH"[OF Some False this, of True]
      have "fst (alias_loop al nxt (cur # seen) True) = fst (alias_loop al nxt (cur # s2) True)" .
      with Some False "1.prems" show ?thesis
        by (simp add: walk_unfold[of al cur seen] walk_unfold[of al cur s2])
    qed
  qed
qed

lemma walk_drop_seen:
  "c \<noteq> y \<Longrightarrow> set S = insert y (set T) \<Longrightarrow> fst (alias_loop al x S h) = c
     \<Longrightarrow> fst (alias_loop al x T h') = c"
proof (induction al x T h' arbitrary: S h rule: alias_loop.induct)
  case (1 al cur seen had)
  show ?case
  proof (cases "map_of al cur")
    case None
    with "1.prems" show ?thesis by (simp add: walk_unfold)
  next
    case (Some nxt)
    show ?thesis
    proof (cases "cur \<in> set seen")
      case True
      with Some "1.prems" show ?thesis by (simp add: walk_unfold)
    next
      case False
      have ne: "cur \<noteq> y"
      proof
        assume "cur = y"
        with "1.prems"(2) have "cur \<in> set S" by simp
        with Some have "fst (alias_loop al cur S h) = cur" by (simp add: walk_unfold)
        with "1.prems" \<open>cur = y\<close> show False by simp
      qed
      with False "1.prems"(2) have notS: "cur \<notin> set S" by auto
      from "1.prems"(2) have s: "set (cur # S) = insert y (set (cur # seen))" by auto
      from Some notS "1.prems"(3) have "fst (alias_loop al nxt (cur # S) True) = c"
        by (simp add: walk_unfold[of al cur S])
      from "1.IH"[OF Some False "1.prems"(1) s this]
      have "fst (alias_loop al nxt (cur # seen) True) = c" .
      with Some False show ?thesis by (simp add: walk_unfold[of al cur seen])
    qed
  qed
qed

lemma walk_returns_to_cycle:
  "fst (alias_loop al cur S h) = c \<Longrightarrow> map_of al c \<noteq> None \<Longrightarrow> c \<notin> set S
     \<Longrightarrow> fst (alias_loop al c S h') = c"
proof (induction al cur S h arbitrary: h' rule: alias_loop.induct)
  case (1 al cur seen had)
  show ?case
  proof (cases "map_of al cur")
    case None
    with "1.prems" show ?thesis by (simp add: walk_unfold[of al cur])
  next
    case (Some nxt)
    show ?thesis
    proof (cases "cur \<in> set seen")
      case True
      with Some "1.prems" show ?thesis by (simp add: walk_unfold[of al cur])
    next
      case False
      show ?thesis
      proof (cases "c = cur")
        case True
        with "1.prems"(1) walk_seen_set[of seen seen al cur had h'] show ?thesis by simp
      next
        case ne: False
        from Some False "1.prems"(1) have r: "fst (alias_loop al nxt (cur # seen) True) = c"
          by (simp add: walk_unfold[of al cur seen])
        from ne "1.prems"(3) have "c \<notin> set (cur # seen)" by simp
        from "1.IH"[OF Some False r "1.prems"(2) this]
        have "fst (alias_loop al c (cur # seen) h') = c" .
        from walk_drop_seen[OF ne _ this, of seen h'] show ?thesis by simp
      qed
    qed
  qed
qed

lemma walk_update_seen:
  "s \<in> set S \<Longrightarrow> fst (alias_loop (AList.update s c al) x S h) = fst (alias_loop al x S h')"
proof (induction al x S h' arbitrary: h rule: alias_loop.induct)
  case (1 al cur seen had)
  show ?case
  proof (cases "cur = s")
    case True
    with "1.prems" show ?thesis
      by (simp add: walk_unfold[of _ _ seen] update_conv' split: option.splits)
  next
    case ne: False
    then have m: "map_of (AList.update s c al) cur = map_of al cur"
      by (simp add: update_conv')
    show ?thesis
    proof (cases "map_of al cur")
      case None
      with m show ?thesis by (simp add: walk_unfold[of _ cur seen])
    next
      case (Some nxt)
      show ?thesis
      proof (cases "cur \<in> set seen")
        case True
        with Some m show ?thesis by (simp add: walk_unfold[of _ cur seen])
      next
        case False
        from "1.prems" have "s \<in> set (cur # seen)" by simp
        from "1.IH"[OF Some False this, of True]
        show ?thesis using Some False m by (simp add: walk_unfold[of _ cur seen])
      qed
    qed
  qed
qed

lemma walk_update_result:
  "fst (alias_loop al cur S h) = c \<Longrightarrow> fst (alias_loop (AList.update s c al) cur S h') = c"
proof (induction al cur S h arbitrary: h' rule: alias_loop.induct)
  case (1 al cur seen had)
  let ?al' = "AList.update s c al"
  have m': "map_of ?al' = (map_of al)(s \<mapsto> c)" by (simp add: update_conv')
  show ?case
  proof (cases "cur \<in> set seen")
    case True
    with "1.prems" show ?thesis
      by (simp add: walk_unfold[of _ cur seen] split: option.splits)
  next
    case fresh: False
    show ?thesis
    proof (cases "cur = s")
      case ne: False
      then have m: "map_of ?al' cur = map_of al cur" by (simp add: m')
      show ?thesis
      proof (cases "map_of al cur")
        case None
        with m "1.prems" show ?thesis by (simp add: walk_unfold[of _ _ seen])
      next
        case (Some nxt)
        from Some fresh "1.prems" have "fst (alias_loop al nxt (cur # seen) True) = c"
          by (simp add: walk_unfold[of al cur seen])
        from "1.IH"[OF Some fresh this, of True] Some fresh m
        show ?thesis by (simp add: walk_unfold[of _ cur seen])
      qed
    next
      case eq: True
      have step: "fst (alias_loop ?al' cur seen h') = fst (alias_loop ?al' c (s # seen) True)"
        using eq fresh by (simp add: walk_unfold[of _ _ seen] m')
      have "fst (alias_loop ?al' c (s # seen) True) = c"
      proof (cases "map_of al c = None \<or> c \<in> set (s # seen)")
        case True
        then show ?thesis
          by (auto simp add: walk_unfold[of ?al' c] m' split: option.splits)
      next
        case False
        then have dom: "map_of al c \<noteq> None" and notin: "c \<notin> set (s # seen)" by auto
        from notin eq have "c \<noteq> cur" by simp
        with "1.prems" obtain nxt where Some: "map_of al cur = Some nxt"
          by (cases "map_of al cur") (auto simp add: walk_unfold[of al cur seen])
        with fresh "1.prems" have "fst (alias_loop al nxt (cur # seen) True) = c"
          by (simp add: walk_unfold[of al cur seen])
        from walk_returns_to_cycle[OF this dom, of True] notin eq
        have "fst (alias_loop al c (s # seen) True) = c" by simp
        with walk_update_seen[of s "s # seen" c al c True True] show ?thesis by simp
      qed
      with step show ?thesis by simp
    qed
  qed
qed

lemma alias_loop_had:
  "snd (snd (alias_loop al cur seen had)) = (had \<or> (map_of al cur \<noteq> None \<and> cur \<notin> set seen))"
proof (induction al cur seen had rule: alias_loop.induct)
  case (1 al cur seen had)
  show ?case
  proof (cases "map_of al cur")
    case None
    then show ?thesis by (subst alias_loop.simps) simp
  next
    case (Some nxt)
    show ?thesis
    proof (cases "cur \<in> set seen")
      case True
      with Some show ?thesis by (subst alias_loop.simps) simp
    next
      case False
      from "1.IH"[OF Some False] Some False show ?thesis
        by (subst alias_loop.simps) simp
    qed
  qed
qed


lemma strip_shape: "strip s = [] \<or> (\<not> is_space (hd (strip s)) \<and> \<not> is_space (last (strip s)))"
proof -
  define u where "u = dropWhile is_space s"
  define v where "v = dropWhile is_space (rev u)"
  have t: "strip s = rev v" by (simp add: strip_def u_def v_def)
  show ?thesis
  proof (cases "v = []")
    case True
    with t show ?thesis by simp
  next
    case False
    then have hv: "\<not> is_space (hd v)" unfolding v_def by (metis hd_dropWhile)
    from False have "u \<noteq> []" unfolding v_def by auto
    then have hu: "\<not> is_space (hd u)" unfolding u_def by (metis hd_dropWhile)
    obtain w where "rev u = w @ v" unfolding v_def by (metis takeWhile_dropWhile_id)
    with False have "last v = last (rev u)" by simp
    with \<open>u \<noteq> []\<close> have "last v = hd u" by (simp add: last_rev)
    with hu hv False t show ?thesis by (simp add: hd_rev last_rev)
  qed
qed

lemma strip_fixed: "t = [] \<or> (\<not> is_space (hd t) \<and> \<not> is_space (last t)) \<Longrightarrow> strip t = t"
proof (cases t)
  case Nil
  then show ?thesis by (simp add: strip_def)
next
  case (Cons a as)
  assume "t = [] \<or> (\<not> is_space (hd t) \<and> \<not> is_space (last t))"
  with Cons have h: "\<not> is_space (hd t)" and l: "\<not> is_space (last t)" by auto
  from h Cons have 1: "dropWhile is_space t = t" by simp
  from Cons have "rev t \<noteq> []" by simp
  moreover from \<open>rev t \<noteq> []\<close> have "hd (rev t) = last t" by (simp add: hd_rev)
  with l have "\<not> is_space (hd (rev t))" by simp
  ultimately have "dropWhile is_space (rev t) = rev t" by (cases "rev t") auto
  with 1 show ?thesis by (simp add: strip_def)
qed

lemma strip_strip: "strip (strip s) = strip s"
  using strip_fixed[OF strip_shape] .

lemma canonical_net_update:
  assumes "s \<noteq> strip dst"
  shows "canonical_net (st\<lparr>net_alias := AList.update s (canonical_net st dst) (net_alias st)\<rparr>) dst
         = canonical_net st dst"
proof (cases "strip dst = []")
  case True
  then show ?thesis by (simp add: canonical_net_def)
next
  case ne: False
  let ?d = "strip dst" and ?al = "net_alias st"
  obtain w vs had where r: "alias_loop ?al ?d [] False = (w, vs, had)"
    by (cases "alias_loop ?al ?d [] False") auto
  have had: "had = (map_of ?al ?d \<noteq> None)"
    using alias_loop_had[of ?al ?d "[]" False] r by simp
  let ?c = "canonical_net st dst"
  let ?al' = "AList.update s ?c ?al"
  obtain w' vs' had' where r': "alias_loop ?al' ?d [] False = (w', vs', had')"
    by (cases "alias_loop ?al' ?d [] False") auto
  have m: "map_of ?al' ?d = map_of ?al ?d" using assms by (simp add: update_conv')
  have had': "had' = had"
    using alias_loop_had[of ?al' ?d "[]" False] r' m had by simp
  have "w' = w"
  proof (cases had)
    case False
    with had m have "map_of ?al' ?d = None" "map_of ?al ?d = None" by auto
    then have "alias_loop ?al' ?d [] False = (?d, [], False)" "alias_loop ?al ?d [] False = (?d, [], False)"
      by (subst alias_loop.simps, simp)+
    with r r' show ?thesis by simp
  next
    case True
    with r ne have c: "?c = w" by (simp add: canonical_net_def)
    from r have "fst (alias_loop ?al ?d [] False) = w" by simp
    from walk_update_result[OF this, of s False] r' c show ?thesis by simp
  qed
  with had' r r' ne show ?thesis by (simp add: canonical_net_def)
qed

lemma merge_net_idem: "merge_net (merge_net st src dst) src dst = merge_net st src dst"
proof (cases "strip src = [] \<or> strip dst = [] \<or> strip src = strip dst")
  case True
  then show ?thesis by (auto simp add: merge_net_def)
next
  case False
  then have ne: "strip src \<noteq> strip (strip dst)" by (simp add: strip_strip)
  from False show ?thesis
    by (simp add: merge_net_def canonical_net_update[OF ne] Let_def)
qed

subsection \<open>Alias chains\<close>

lemma alias_loop_none: "map_of al cur = None \<Longrightarrow> alias_loop al cur seen had = (cur, seen, had)"
  by (subst alias_loop.simps) simp



lemma canonical_net_unaliased:
  assumes "map_of (net_alias mgr) (strip nid) = None"
  shows "canonical_net mgr nid =
           (if auto_merge_by_freq mgr
            then (case freq_suffix_from_net nid of
                    Some suffix \<Rightarrow> auto_canon_for_suffix suffix
                  | None \<Rightarrow> strip nid)
            else strip nid)"
proof -
  have f: "freq_suffix_from_net (strip nid) = freq_suffix_from_net nid"
    by (simp add: freq_suffix_from_net_def strip_strip)
  have ne: "freq_suffix_from_net nid = Some suffix \<Longrightarrow> suffix \<noteq> []" for suffix
    by (auto simp add: freq_suffix_from_net_def Let_def fmt_04d_def zero_pad_def
        split: if_splits option.splits)
  show ?thesis
  proof (cases "strip nid = []")
    case True
    then have "freq_suffix_from_net nid = None"
      by (simp add: freq_suffix_from_net_def)
    with True show ?thesis by (simp add: canonical_net_def)
  next
    case False
    with assms have "canonical_net mgr nid =
        (if auto_merge_by_freq mgr
         then (case freq_suffix_from_net nid of
                 Some suffix \<Rightarrow> if suffix \<noteq> [] then auto_canon_for_suffix suffix else strip nid
               | None \<Rightarrow> strip nid)
         else strip nid)"
      by (simp add: canonical_net_def alias_loop_none f Let_def)
    with ne show ?thesis by (simp split: option.splits)
  qed
qed

lemma digit_zero: "digit_of_char c = Some 0 \<longleftrightarrow> c = CHR ''0''"
  by (simp add: digit_of_char_def)

lemma foldl_digits_zero:
  "list_all is_decimal s \<Longrightarrow>
     foldl (\<lambda>acc c. 10 * acc + the (digit_of_char c)) a s = 0
       \<longleftrightarrow> a = 0 \<and> \<not> list_ex (\<lambda>c. c \<noteq> CHR ''0'') s"
proof (induction s arbitrary: a)
  case Nil
  then show ?case by simp
next
  case (Cons c s)
  then obtain d where d: "digit_of_char c = Some d" by (auto simp add: is_decimal_def)
  from Cons.prems have "list_all is_decimal s" by simp
  from Cons.IH[OF this, of "10 * a + d"] d digit_zero[of c] show ?case by auto
qed

lemma is_decimal_digit: "is_decimal c \<Longrightarrow> is_digit c"
  by (simp add: is_digit_def)

lemma freq_suffix_from_net_Some:
  "freq_suffix_from_net nid \<noteq> None \<longleftrightarrow> positive_suffix (strip nid)"
proof -
  let ?t = "strip nid"
  let ?s = "drop (length ?t - 4) ?t"
  show ?thesis
  proof (cases "length ?t < 4")
    case True
    then show ?thesis by (simp add: freq_suffix_from_net_def positive_suffix_def)
  next
    case False
    then have ne: "?s \<noteq> []" by simp
    show ?thesis
    proof (cases "list_all is_decimal ?s")
      case dec: True
      then have "list_all is_digit ?s"
        by (simp add: list_all_iff is_decimal_digit)
      with ne have isd: "str_isdigit ?s" by (simp add: str_isdigit_def)
      from dec ne have v: "int_of_str ?s = Some (foldl (\<lambda>acc c. 10 * acc + the (digit_of_char c)) 0 ?s)"
        by (simp add: int_of_str_def)
      from foldl_digits_zero[OF dec, of 0] False isd v dec show ?thesis
        by (auto simp add: freq_suffix_from_net_def positive_suffix_def Let_def)
    next
      case nd: False
      then have "int_of_str ?s = None" by (simp add: int_of_str_def)
      with nd False show ?thesis
        by (simp add: freq_suffix_from_net_def positive_suffix_def Let_def)
    qed
  qed
qed

lemma auto_canon_prefix: "take 5 (auto_canon_for_suffix s) = ''FREQ-''"
  by (simp add: auto_canon_for_suffix_def)

lemma digit_char_inverse: "digit_of_char c = Some d \<Longrightarrow> d < 10 \<and> digit_char d = c"
  by (auto simp add: digit_of_char_def digit_char_def split: if_splits)

lemma four_decimal_roundtrip:
  assumes "length s = 4" "list_all is_decimal s"
  shows "\<exists>v. int_of_str s = Some v \<and> fmt_04d (int v) = s"
proof -
  from assms(1) obtain a b c d where s: "s = [a, b, c, d]"
    by (cases s; cases "tl s"; cases "tl (tl s)"; cases "tl (tl (tl s))") auto
  with assms(2) obtain da db dc dd where
    d: "digit_of_char a = Some da" "digit_of_char b = Some db"
       "digit_of_char c = Some dc" "digit_of_char d = Some dd"
    by (auto simp add: is_decimal_def)
  note inv = digit_char_inverse[OF d(1)] digit_char_inverse[OF d(2)]
    digit_char_inverse[OF d(3)] digit_char_inverse[OF d(4)]
  let ?v = "10 * (10 * (10 * da + db) + dc) + dd"
  from s assms(2) d have v: "int_of_str s = Some ?v" by (simp add: int_of_str_def)
  from inv have le: "?v \<le> 9999" by simp
  from inv have b: "da < 10" "db < 10" "dc < 10" "dd < 10" by simp_all
  have dm: "(10 * x + y) div 10 = x" if "y < 10" for x y :: nat
    using that by simp
  have q1: "?v div 10 = 10 * (10 * da + db) + dc" using b(4) by (rule dm)
  have "?v div 100 = ?v div 10 div 10" by (simp only: div_mult2_eq[symmetric]) simp
  with q1 dm[OF b(3)] have q2: "?v div 100 = 10 * da + db" by (simp only:)
  have "?v div 1000 = ?v div 100 div 10" by (simp only: div_mult2_eq[symmetric]) simp
  with q2 dm[OF b(2)] have q3: "?v div 1000 = da" by (simp only:)
  note q = q1 q2 q3
  have m: "digit_char (10 * x + y) = digit_char y" for x y
    by (simp add: digit_char_def)
  from fmt_04d_four_digits[OF le] have "fmt_04d (int ?v) = four_digits ?v" .
  also have "\<dots> = [digit_char da, digit_char db, digit_char dc, digit_char dd]"
    by (simp only: four_digits_def q m)
  also from inv s have "\<dots> = s" by simp
  finally show ?thesis using v by blast
qed

lemma freq_suffix_from_net_value:
  "freq_suffix_from_net nid = Some suffix \<Longrightarrow> suffix = drop (length (strip nid) - 4) (strip nid)"
proof -
  assume a: "freq_suffix_from_net nid = Some suffix"
  let ?t = "strip nid"
  let ?s = "drop (length ?t - 4) ?t"
  from a have len: "\<not> length ?t < 4" by (auto simp add: freq_suffix_from_net_def Let_def split: if_splits)
  then have l4: "length ?s = 4" by simp
  from a len obtain v where v: "int_of_str ?s = Some v" "suffix = fmt_04d (int v)"
    by (auto simp add: freq_suffix_from_net_def Let_def split: if_splits option.splits)
  from v(1) have "list_all is_decimal ?s" by (auto simp add: int_of_str_def split: if_splits)
  from four_decimal_roundtrip[OF l4 this] v show ?thesis by auto
qed

text \<open>
  Claim C3.  The claim fails on the code when auto-merge is enabled.  In the alias table
  \<open>{A: B, B: XYZ1000}\<close>, an acyclic chain whose end \<open>XYZ1000\<close> is not aliased,
  \<open>canonical_net(A)\<close> is \<open>XYZ1000\<close>: a manual alias applied, so the frequency grouping
  is skipped.  The unaliased \<open>XYZ1000\<close> itself is grouped by frequency and becomes
  \<open>FREQ-100\<close>.  The two ids that \<open>merge_net\<close> records as equivalent for routing are on
  different networks.
\<close>

theorem canonical_net_chain_auto_merge_diverges:
  "map_of (net_alias (new_session_manager\<lparr>net_alias := [(''A'', ''B''), (''B'', ''XYZ1000'')], auto_merge_by_freq := True\<rparr>)) ''A'' = Some ''B'' \<and>
   map_of (net_alias (new_session_manager\<lparr>net_alias := [(''A'', ''B''), (''B'', ''XYZ1000'')], auto_merge_by_freq := True\<rparr>)) ''B'' = Some ''XYZ1000'' \<and>
   map_of (net_alias (new_session_manager\<lparr>net_alias := [(''A'', ''B''), (''B'', ''XYZ1000'')], auto_merge_by_freq := True\<rparr>)) ''XYZ1000'' = None \<and>
   canonical_net (new_session_manager\<lparr>net_alias := [(''A'', ''B''), (''B'', ''XYZ1000'')], auto_merge_by_freq := True\<rparr>) ''A'' = ''XYZ1000'' \<and>
   canonical_net (new_session_manager\<lparr>net_alias := [(''A'', ''B''), (''B'', ''XYZ1000'')], auto_merge_by_freq := True\<rparr>) ''XYZ1000'' = ''FREQ-100'' \<and>
   canonical_net (new_session_manager\<lparr>net_alias := [(''A'', ''B''), (''B'', ''XYZ1000'')], auto_merge_by_freq := True\<rparr>) ''A''
     \<noteq> canonical_net (new_session_manager\<lparr>net_alias := [(''A'', ''B''), (''B'', ''XYZ1000'')], auto_merge_by_freq := True\<rparr>) ''XYZ1000''"
  by code_simp

text \<open>
  The order of the two administrative commands decides the outcome.  A merge of
  \<open>ABC1000\<close> into \<open>XYZ1000\<close> recorded while auto-merge is on stores the \<open>FREQ-\<close> id, and
  the two ids agree; the same merge recorded before auto-merge is switched on stores
  \<open>XYZ1000\<close>, and the merged id is cut off from its target.
\<close>

lemma merge_net_order_example:
  "canonical_net (merge_net (set_auto_merge_by_freq new_session_manager True) ''ABC1000'' ''XYZ1000'') ''ABC1000'' = ''FREQ-100''"
  "canonical_net (merge_net (set_auto_merge_by_freq new_session_manager True) ''ABC1000'' ''XYZ1000'') ''XYZ1000'' = ''FREQ-100''"
  "canonical_net (set_auto_merge_by_freq (merge_net new_session_manager ''ABC1000'' ''XYZ1000'') True) ''ABC1000'' = ''XYZ1000''"
  "canonical_net (set_auto_merge_by_freq (merge_net new_session_manager ''ABC1000'' ''XYZ1000'') True) ''XYZ1000'' = ''FREQ-100''"
  by code_simp+

subsection \<open>Termination and cycles\<close>



subsection \<open>Merging\<close>

text \<open>
  Claim C6.  A second \<open>merge_net src dst\<close> right after the first leaves the manager,
  and so its alias table, as the first call left it; and \<open>merge_net\<close> changes nothing
  when the trimmed arguments are equal or one of them is empty.
\<close>

theorem merge_net_idempotent:
  "merge_net (merge_net mgr src dst) src dst = merge_net mgr src dst
   \<and> (strip src = strip dst \<or> strip src = [] \<or> strip dst = [] \<longrightarrow> merge_net mgr src dst = mgr)"
proof
  show "merge_net (merge_net mgr src dst) src dst = merge_net mgr src dst"
    by (rule merge_net_idem)
  show "strip src = strip dst \<or> strip src = [] \<or> strip dst = [] \<longrightarrow> merge_net mgr src dst = mgr"
    by (auto simp add: merge_net_def)
qed

theorem merge_net_idempotent_witness:
  "strip '' A'' = strip ''A '' \<and> merge_net new_session_manager '' A'' ''A '' = new_session_manager"
proof -
  have "strip '' A'' = strip ''A ''" by code_simp
  with merge_net_idempotent[of new_session_manager "'' A''" "''A ''"] show ?thesis by simp
qed

section \<open>Properties of the decoder cache\<close>

lemma length_delete_distinct:
  "distinct (map fst al) \<Longrightarrow> k \<in> fst ` set al \<Longrightarrow> Suc (length (AList.delete k al)) = length al"
proof (induction al)
  case Nil
  then show ?case by simp
next
  case (Cons p al)
  show ?case
  proof (cases "fst p = k")
    case True
    with Cons.prems have "k \<notin> fst ` set al" by auto
    then have "AList.delete k al = al" by simp
    with True show ?thesis by simp
  next
    case False
    with Cons show ?thesis by auto
  qed
qed

lemma update_fresh: "k \<notin> fst ` set al \<Longrightarrow> AList.update k v al = al @ [(k, v)]"
  by (induction al) auto

lemma get_decoder_bound:
  assumes "distinct (map fst (decoders s))" "length (decoders s) \<le> 32"
  shows "distinct (map fst (decoders (snd (get_decoder s key made))))
       \<and> length (decoders (snd (get_decoder s key made))) \<le> 32"
proof (cases "enabled s \<and> key \<noteq> None \<and> map_of (decoders s) (the key) = None \<and> made \<noteq> None")
  case False
  with assms show ?thesis
    by (auto simp add: get_decoder_def split: option.splits)
next
  case True
  then obtain k d where k: "key = Some k" and d: "made = Some d"
    and fresh: "map_of (decoders s) k = None" and en: "enabled s" by auto
  let ?ds = "AList.update k d (decoders s)"
  from fresh have notin: "k \<notin> fst ` set (decoders s)"
    by (simp add: map_of_eq_None_iff)
  then have app: "?ds = decoders s @ [(k, d)]" by (rule update_fresh)
  then have len: "length ?ds = Suc (length (decoders s))" by simp
  from assms(1) have dist: "distinct (map fst ?ds)" by (simp add: distinct_update)
  show ?thesis
  proof (cases "length ?ds > 32")
    case False
    with k d fresh en dist show ?thesis by (simp add: get_decoder_def Let_def)
  next
    case big: True
    with len have "decoders s \<noteq> []" by auto
    with app have hd: "hd ?ds = hd (decoders s)" by simp
    with \<open>decoders s \<noteq> []\<close> have old: "fst (hd ?ds) \<in> fst ` set (decoders s)" by simp
    with notin have ne: "fst (hd ?ds) \<noteq> k" by metis
    from old have "fst (hd ?ds) \<in> fst ` set ?ds" by (simp add: app)
    from length_delete_distinct[OF dist this] len assms(2)
    have "length (AList.delete (fst (hd ?ds)) ?ds) \<le> 32" by simp
    moreover from dist have "distinct (map fst (AList.delete (fst (hd ?ds)) ?ds))"
      by (rule distinct_delete)
    ultimately show ?thesis using k d fresh en big ne
      by (simp add: get_decoder_def Let_def)
  qed
qed

lemma shim_decode_state:
  "snd (shim_decode_to_float32 lib s b ssrc made) = snd (get_decoder s ssrc made)"
  by (auto simp add: shim_decode_to_float32_def get_decoder_def split: prod.splits option.splits sum.splits)

lemma decode_calls_bound:
  "distinct (map fst (decoders s)) \<Longrightarrow> length (decoders s) \<le> 32 \<Longrightarrow>
     distinct (map fst (decoders (decode_calls lib s calls)))
       \<and> length (decoders (decode_calls lib s calls)) \<le> 32"
proof (induction calls arbitrary: s)
  case Nil
  then show ?case by (simp add: decode_calls_def)
next
  case (Cons c calls)
  obtain b ssrc made where c: "c = (b, ssrc, made)" by (cases c) auto
  let ?s' = "snd (shim_decode_to_float32 lib s b ssrc made)"
  from get_decoder_bound[OF Cons.prems, of ssrc made]
  have "distinct (map fst (decoders ?s'))" "length (decoders ?s') \<le> 32"
    by (simp_all add: shim_decode_state)
  from Cons.IH[OF this] c show ?case by (simp add: decode_calls_def)
qed

text \<open>
  Claim C9.  Starting from the shim the constructor builds, after every sequence of
  \<open>decode_to_float32\<close> calls (each running \<open>_get_decoder\<close> once), with arbitrary
  sender keys and whether or not the decoder constructor or the library decode raises,
  the cache holds at most 32 entries, all with different keys.
\<close>

theorem decoder_cache_bounded:
  "length (decoders (decode_calls lib (new_shim ok d0) calls)) \<le> 32
   \<and> distinct (map fst (decoders (decode_calls lib (new_shim ok d0) calls)))
   \<and> card (dom (map_of (decoders (decode_calls lib (new_shim ok d0) calls)))) \<le> 32"
proof -
  let ?ds = "decoders (decode_calls lib (new_shim ok d0) calls)"
  have a: "distinct (map fst ?ds) \<and> length ?ds \<le> 32"
    by (rule decode_calls_bound) (simp_all add: new_shim_def)
  have "card (dom (map_of ?ds)) = card (fst ` set ?ds)" by (simp add: dom_map_of_conv_image_fst)
  also have "\<dots> \<le> length ?ds" by (metis card_image_le List.finite_set card_length le_trans)
  finally show ?thesis using a by simp
qed

section \<open>The tolerant decoder on the int16 branch\<close>

lemma chunks_Nil: "chunks k [] = []"
  by (subst chunks.simps) simp

lemma chunks_step: "0 < k \<Longrightarrow> xs \<noteq> [] \<Longrightarrow> chunks k xs = take k xs # chunks k (drop k xs)"
  by (subst chunks.simps) simp

text \<open>
  Claim C7 says that every sample \<open>decode_to_float32\<close> returns lies within \<open>[-1, 1]\<close>.
  The two-byte buffer \<open>00 80\<close> is not float32-aligned, so the int16 branch decodes it
  as the sample \<open>-32768\<close> and returns \<open>-32768 / 32767\<close>, which is below \<open>-1\<close>: that
  branch divides by 32767 and, unlike the float32 branch, does not clip.  With two
  channels the single sample is not a whole row and is returned without downmix.
\<close>

theorem decode_int16_minimum_below_range:
  "decode_to_float32 1 [0x00, 0x80] = Inr [Finite (- 32768 / 32767)]
   \<and> \<not> in_unit_range (Finite (- 32768 / 32767))
   \<and> decode_to_float32 2 [0x00, 0x80] = Inr [Finite (- 32768 / 32767)]"
  by (simp add: decode_to_float32_def i16_path_def chunks_step chunks_Nil i16_of_bytes_def
      in_unit_range_def)

section \<open>Properties of the client mix step\<close>

lemma channel_is_audible_spec:
  "scan_d_var app \<Longrightarrow> 0 \<le> c \<Longrightarrow> c \<le> 3 \<Longrightarrow> channel_is_audible app c = spec_audible app c"
  by (auto simp add: channel_is_audible_def spec_audible_def scan_flag_def)

lemma add_scaled_ok:
  assumes "length arr \<le> length m"
  shows "\<exists>m'. add_scaled m arr g = Inr m' \<and> length m' = length m
           \<and> (\<forall>k<length m. m' ! k = m ! k + (if k < length arr then arr ! k * g else 0))"
proof -
  let ?m' = "map2 (\<lambda>m a. m + a * g) (take (length arr) m) arr @ drop (length arr) m"
  from assms have r: "add_scaled m arr g = Inr ?m'" by (simp add: add_scaled_def)
  from assms have l: "length ?m' = length m" by simp
  have "?m' ! k = m ! k + (if k < length arr then arr ! k * g else 0)" if "k < length m" for k
  proof (cases "k < length arr")
    case True
    with assms that show ?thesis by (simp add: nth_append)
  next
    case False
    with assms that show ?thesis by (simp add: nth_append min_def)
  qed
  with r l show ?thesis by blast
qed

lemma mix_batch_sum:
  assumes "scan_d_var app" and "length m = n"
    and "\<forall>item \<in> set batch. length (buf item) \<le> n \<and> (\<exists>c. chan_idx item = Some c \<and> 0 \<le> c \<and> c \<le> 3)"
  shows "\<exists>m'. mix_batch app batch m = Inr m' \<and> length m' = n
           \<and> (\<forall>k<n. m' ! k = m ! k + (\<Sum>item\<leftarrow>batch. contribution app item k))"
  using assms(2,3)
proof (induction batch arbitrary: m)
  case Nil
  then show ?case by simp
next
  case (Cons item rest)
  from Cons.prems obtain c where c: "chan_idx item = Some c" "0 \<le> c" "c \<le> 3"
    and len: "length (buf item) \<le> n" by auto
  from Cons.prems have rest: "\<forall>item \<in> set rest. length (buf item) \<le> n
      \<and> (\<exists>c. chan_idx item = Some c \<and> 0 \<le> c \<and> c \<le> 3)" by simp
  have aud: "channel_is_audible app c = spec_audible app c"
    using assms(1) c(2,3) by (rule channel_is_audible_spec)
  show ?case
  proof (cases "spec_audible app c")
    case False
    with c aud have step: "mix_batch app (item # rest) m = mix_batch app rest m" by simp
    from False c have z: "contribution app item k = 0" for k by (simp add: contribution_def)
    from Cons.IH[OF Cons.prems(1) rest] step z show ?thesis by simp
  next
    case True
    from len Cons.prems(1) have "length (buf item) \<le> length m" by simp
    from add_scaled_ok[OF this, of "get_channel_volume app c"]
    obtain m1 where m1: "add_scaled m (buf item) (get_channel_volume app c) = Inr m1"
      "length m1 = length m"
      "\<forall>k<length m. m1 ! k = m ! k
          + (if k < length (buf item) then buf item ! k * get_channel_volume app c else 0)"
      by blast
    from True c aud m1(1) have step: "mix_batch app (item # rest) m = mix_batch app rest m1"
      by simp
    from True c have con: "contribution app item k
        = (if k < length (buf item) then buf item ! k * get_channel_volume app c else 0)" for k
      by (simp add: contribution_def)
    from m1(2) Cons.prems(1) have "length m1 = n" by simp
    from Cons.IH[OF this rest] obtain m' where m': "mix_batch app rest m1 = Inr m'" "length m' = n"
      "\<forall>k<n. m' ! k = m1 ! k + (\<Sum>item\<leftarrow>rest. contribution app item k)" by blast
    have "m' ! k = m ! k + (\<Sum>item\<leftarrow>item # rest. contribution app item k)" if "k < n" for k
      using that m'(3) m1(3) Cons.prems(1) con[of k] by simp
    with step m'(1,2) show ?thesis by simp
  qed
qed

text \<open>
  Claim C8.  In the mix step, for every batch of frames tagged with a channel index in
  \<open>0..3\<close> (each at most one block long, as enqueueing leaves them), the accumulator
  is, sample by sample, the sum over the frames of their contributions: nothing for a
  frame whose channel is neither the active channel nor scan-enabled, and
  \<open>sample * channelGain(c)\<close> otherwise.  Channel D's scan flag is the locked
  \<open>scan_d_var\<close>, which the client only ever sets to true.
\<close>

theorem mix_batch_contributions:
  assumes "scan_d_var app"
    and "\<forall>item \<in> set batch. length (buf item) \<le> AUDIO_BLOCK
           \<and> (\<exists>c. chan_idx item = Some c \<and> 0 \<le> c \<and> c \<le> 3)"
  shows "\<exists>mix. mix_batch app batch (replicate AUDIO_BLOCK 0) = Inr mix
           \<and> length mix = AUDIO_BLOCK
           \<and> (\<forall>k<AUDIO_BLOCK. mix ! k = (\<Sum>item\<leftarrow>batch. contribution app item k))
           \<and> mix_step app batch = Some (soft_limit mix)"
proof -
  from mix_batch_sum[OF assms(1) _ assms(2), of "replicate AUDIO_BLOCK 0"]
  obtain mix where "mix_batch app batch (replicate AUDIO_BLOCK 0) = Inr mix"
    "length mix = AUDIO_BLOCK"
    "\<forall>k<AUDIO_BLOCK. mix ! k = replicate AUDIO_BLOCK 0 ! k + (\<Sum>item\<leftarrow>batch. contribution app item k)"
    by auto
  then show ?thesis by (auto simp add: mix_step_def)
qed

theorem mix_batch_contributions_witness:
  "\<exists>mix. mix_batch \<lparr>active_chan = 0, scan_vars = (False, False, False), scan_d_var = True,
                       chan_vol_vars = (100, 50, 50), chan_d_vol_var = 50\<rparr>
             [\<lparr>buf = [1 / 2], chan_idx = Some 0\<rparr>, \<lparr>buf = [1 / 4], chan_idx = Some 2\<rparr>]
             (replicate AUDIO_BLOCK 0) = Inr mix
         \<and> length mix = AUDIO_BLOCK \<and> mix ! 0 = 1"
proof -
  let ?app = "\<lparr>active_chan = 0, scan_vars = (False, False, False), scan_d_var = True,
               chan_vol_vars = (100, 50, 50), chan_d_vol_var = 50\<rparr>"
  let ?batch = "[\<lparr>buf = [1 / 2], chan_idx = Some 0\<rparr>, \<lparr>buf = [1 / 4 :: real], chan_idx = Some (2::int)\<rparr>]"
  have d: "scan_d_var ?app" by simp
  have b: "\<forall>item \<in> set ?batch. length (buf item) \<le> AUDIO_BLOCK
           \<and> (\<exists>c. chan_idx item = Some c \<and> 0 \<le> c \<and> c \<le> 3)"
    by (simp add: AUDIO_BLOCK_def)
  have c: "(\<Sum>item\<leftarrow>?batch. contribution ?app item 0) = 1"
    by (simp add: contribution_def spec_audible_def scan_flag_def triple_at_def
        get_channel_volume_def gain_def snap_10_def)
  have pos: "0 < AUDIO_BLOCK" by (simp add: AUDIO_BLOCK_def)
  from mix_batch_contributions[OF d b] obtain mix
    where m: "mix_batch ?app ?batch (replicate AUDIO_BLOCK 0) = Inr mix"
      "length mix = AUDIO_BLOCK"
      "\<forall>k<AUDIO_BLOCK. mix ! k = (\<Sum>item\<leftarrow>?batch. contribution ?app item k)"
    by blast
  from m(3) pos have "mix ! 0 = (\<Sum>item\<leftarrow>?batch. contribution ?app item 0)" by blast
  with c have "mix ! 0 = 1" by (simp only:)
  with m(1,2) show ?thesis by blast
qed

section \<open>Properties of recipient resolution\<close>

lemma collect_Inr:
  "collect f xs = Inr ys \<longleftrightarrow> length ys = length xs \<and> (\<forall>k<length xs. f (xs ! k) = Inr (ys ! k))"
proof (induction xs arbitrary: ys)
  case Nil
  then show ?case by auto
next
  case (Cons x xs)
  show ?case
  proof (cases "f x")
    case (Inl e)
    then show ?thesis by (auto simp add: nth_Cons split: nat.splits) 
  next
    case (Inr y)
    show ?thesis
    proof (cases "collect f xs")
      case (Inl e)
      with Cons.IH[of "tl ys"] Inr show ?thesis
        by (cases ys) (auto simp add: nth_Cons split: nat.splits)
    next
      case r: (Inr zs)
      with Cons.IH[of zs] Cons.IH[of "tl ys"] Inr show ?thesis
        by (cases ys) (auto simp add: nth_Cons less_Suc_eq_0_disj split: nat.splits)
    qed
  qed
qed

lemma compute_networks_Inr:
  "compute_networks s = Inr (ids, a, sm) \<Longrightarrow>
     length ids = 4 \<and> (\<forall>j<4. net_id_of s j = Inr (ids ! j))"
  using collect_Inr[of "net_id_of s" "[0..<4]" ids]
  by (auto simp add: compute_networks_def Let_def split: sum.splits)

lemma compute_networks_Inl:
  "compute_networks s = Inl e \<Longrightarrow> \<not> nets_computable s"
proof
  assume c: "compute_networks s = Inl e" and n: "nets_computable s"
  define ys where "ys = map (\<lambda>j. projr (net_id_of s j)) [0..<4]"
  have "net_id_of s k = Inr (ys ! k)" if "k < 4" for k
  proof (cases "net_id_of s k")
    case (Inl e')
    from n that have "case net_id_of s k of Inr nid \<Rightarrow> True | Inl e \<Rightarrow> False"
      by (simp add: nets_computable_def list_all_iff)
    with Inl show ?thesis by simp
  next
    case (Inr nid)
    with that show ?thesis by (simp add: ys_def)
  qed
  then have "\<forall>k<length [0..<4]. net_id_of s ([0..<4] ! k) = Inr (ys ! k)"
    by simp
  moreover have "length ys = length [0..<4]" by (simp add: ys_def)
  ultimately have "collect (net_id_of s) [0..<4] = Inr ys"
    using collect_Inr[of "net_id_of s" "[0..<4]" ys] by blast
  with c show False by (simp add: compute_networks_def Let_def)
qed

lemma compute_networks_computable:
  "compute_networks s = Inr (ids, a, sm) \<Longrightarrow> nets_computable s"
  using compute_networks_Inr[of s ids a sm]
  by (auto simp add: nets_computable_def list_all_iff)

text \<open>Computability of the network identities, spelled out on the four channel
  frequencies (a missing entry counts as 0.0).\<close>

lemma nets_computable_iff:
  "nets_computable s \<longleftrightarrow>
     (\<forall>j<4. \<exists>y. times10 (if j < length (freqs s) then freqs s ! j else Finite 0) = Finite y)"
proof -
  have "(case net_id_of s j of Inr nid \<Rightarrow> True | Inl e \<Rightarrow> False)
      \<longleftrightarrow> (\<exists>y. times10 (if j < length (freqs s) then freqs s ! j else Finite 0) = Finite y)" for j
    using freq_suffix_defined[of "if j < length (freqs s) then freqs s ! j else Finite 0"]
    by (auto simp add: net_id_of_def Let_def split: sum.splits)
  then show ?thesis by (auto simp add: nets_computable_def list_all_iff)
qed

lemma pick_deliver_active:
  "idx \<in> set idxs \<Longrightarrow> active_channel s = int idx \<Longrightarrow> pick_deliver s idxs d = Some idx"
  by (induction idxs arbitrary: d) (auto simp add: Let_def)

lemma pick_deliver_scan:
  "\<forall>idx \<in> set idxs. active_channel s \<noteq> int idx \<Longrightarrow>
     pick_deliver s idxs d = (case d of Some x \<Rightarrow> Some x | None \<Rightarrow> find (scan_at s) idxs)"
  by (induction idxs arbitrary: d) (auto simp add: Let_def scan_at_def split: option.splits)

lemma find_filter: "find Q (filter P xs) = find (\<lambda>x. P x \<and> Q x) xs"
  by (induction xs) auto

lemma find_upt:
  "find R [0..<n] = Some i \<longleftrightarrow> i < n \<and> R i \<and> (\<forall>j<i. \<not> R j)"
  by (auto simp add: find_Some_iff)

lemma pick_deliver_filter:
  "pick_deliver s (filter P [0..<n]) None = Some i \<longleftrightarrow>
     i < n \<and> P i \<and>
     (active_channel s = int i
      \<or> (scan_at s i \<and> \<not> (\<exists>j<n. P j \<and> active_channel s = int j)
          \<and> (\<forall>j<i. \<not> (P j \<and> scan_at s j))))"
proof (cases "\<exists>j<n. P j \<and> active_channel s = int j")
  case True
  then obtain j where j: "j < n" "P j" "active_channel s = int j" by blast
  then have "j \<in> set (filter P [0..<n])" by simp
  from pick_deliver_active[OF this j(3)] j show ?thesis by auto
next
  case False
  then have "\<forall>idx \<in> set (filter P [0..<n]). active_channel s \<noteq> int idx" by auto
  from pick_deliver_scan[OF this, of None] False show ?thesis
    by (auto simp add: find_filter find_upt)
qed

lemma delivery_iff:
  "delivery mgr now sender net other = Some i \<longleftrightarrow>
     other \<noteq> sender \<and> now - last_seen (heap mgr other) \<le> 15
     \<and> nets_computable (heap mgr other) \<and> spec_recipient_idx mgr net (heap mgr other) i"
proof (cases "compute_networks (heap mgr other)")
  case (Inl e)
  then have "\<not> nets_computable (heap mgr other)" by (rule compute_networks_Inl)
  with Inl show ?thesis by (simp add: delivery_def)
next
  case (Inr r)
  obtain ids a sm where r: "r = (ids, a, sm)" by (cases r) auto
  let ?s = "heap mgr other"
  from Inr r have c: "compute_networks ?s = Inr (ids, a, sm)" by simp
  from compute_networks_Inr[OF c] have len: "length ids = 4"
    and nid: "\<And>j. j < 4 \<Longrightarrow> net_id_of ?s j = Inr (ids ! j)" by auto
  from compute_networks_computable[OF c] have comp: "nets_computable ?s" .
  let ?P = "\<lambda>j. map (canonical_net mgr) ids ! j = net"
  have on: "chan_on_net mgr net ?s j \<longleftrightarrow> ?P j" if "j < 4" for j
    using that nid[OF that] len by (simp add: chan_on_net_def)
  have ne: "ids \<noteq> []" using len by auto
  have d: "delivery mgr now sender net other =
      (if other = sender \<or> now - last_seen ?s > 15 then None
       else pick_deliver ?s (filter ?P [0..<4]) None)"
    using c ne len by (auto simp add: delivery_def Let_def)
  have ex4: "(\<exists>j<4. ?P j \<and> active_channel ?s = int j)
      \<longleftrightarrow> list_ex (\<lambda>j. chan_on_net mgr net ?s j \<and> active_channel ?s = int j) [0..<4]"
    using on by (auto simp add: list_ex_iff)
  have lt: "(\<forall>j<i. \<not> (?P j \<and> scan_at ?s j))
      \<longleftrightarrow> \<not> list_ex (\<lambda>j. chan_on_net mgr net ?s j \<and> scan_at ?s j) [0..<i]" if "i < 4"
    using on that by (auto simp add: list_ex_iff)
  have "pick_deliver ?s (filter ?P [0..<4]) None = Some i \<longleftrightarrow> spec_recipient_idx mgr net ?s i"
    unfolding pick_deliver_filter spec_recipient_idx_def
    using on[of i] ex4 lt by auto
  with d comp show ?thesis by auto
qed

lemma recipient_step_delivery:
  "recipient_step mgr now sender net (rs, seen) other =
     (case delivery mgr now sender net other of
        Some i \<Rightarrow> if other \<notin> set seen then (rs @ [(other, i)], other # seen) else (rs, seen)
      | None \<Rightarrow> (rs, seen))"
  by (simp add: recipient_step_def delivery_def Let_def split: option.splits)

lemma recipients_fold:
  assumes "foldl (recipient_step mgr now sender net) (rs, seen) xs = (rs', seen')"
    and "set seen = fst ` set rs" and "distinct (map fst rs)"
    and "\<forall>(r, i) \<in> set rs. delivery mgr now sender net r = Some i"
  shows "set seen' = fst ` set rs' \<and> distinct (map fst rs')
       \<and> set rs' = set rs \<union> {(r, i). r \<in> set xs \<and> delivery mgr now sender net r = Some i}"
  using assms
proof (induction xs arbitrary: rs seen)
  case Nil
  then show ?case by simp
next
  case (Cons x xs)
  show ?case
  proof (cases "delivery mgr now sender net x")
    case None
    with Cons.prems(1) have "foldl (recipient_step mgr now sender net) (rs, seen) xs = (rs', seen')"
      by (simp add: recipient_step_delivery)
    from Cons.IH[OF this Cons.prems(2,3,4)] None show ?thesis by auto
  next
    case (Some i)
    show ?thesis
    proof (cases "x \<in> set seen")
      case True
      with Some Cons.prems(1) have f: "foldl (recipient_step mgr now sender net) (rs, seen) xs = (rs', seen')"
        by (simp add: recipient_step_delivery)
      from True Cons.prems(2) obtain i' where "(x, i') \<in> set rs" by auto
      with Cons.prems(4) Some have "(x, i) \<in> set rs" by auto
      with Cons.IH[OF f Cons.prems(2,3,4)] Some show ?thesis by auto
    next
      case False
      with Some Cons.prems(1)
      have f: "foldl (recipient_step mgr now sender net) (rs @ [(x, i)], x # seen) xs = (rs', seen')"
        by (simp add: recipient_step_delivery)
      from Cons.prems(2) have a: "set (x # seen) = fst ` set (rs @ [(x, i)])" by auto
      from False Cons.prems(2,3) have b: "distinct (map fst (rs @ [(x, i)]))" by auto
      from Cons.prems(4) Some have c: "\<forall>(r, i) \<in> set (rs @ [(x, i)]). delivery mgr now sender net r = Some i"
        by auto
      from Cons.IH[OF f a b c] Some show ?thesis by auto
    qed
  qed
qed

lemma upt_4: "[0..<4] = [0, 1, 2, 3]"
  by code_simp

lemma upt_small: "[0..<1] = [0]" "[0..<2] = [0, 1]" "[0..<3] = [0, 1, 2]"
  by code_simp+

lemma audio_recipients_net:
  assumes look: "map_of (by_ssrc mgr) ssrc = Some sender"
    and comp: "nets_computable (heap mgr sender)"
    and nid: "net_id_of (heap mgr sender) (nat (max 0 (min 3 (active_channel (heap mgr sender))))) = Inr nid"
  shows "snd (snd (snd (audio_recipients_for mgr now ssrc))) = canonical_net mgr nid"
proof -
  let ?s = "heap mgr sender"
  let ?ci = "nat (max 0 (min 3 (active_channel ?s)))"
  have ci4: "?ci < 4" by auto
  from comp obtain r where "compute_networks ?s = Inr r"
    using compute_networks_Inl[of ?s] by (cases "compute_networks ?s") auto
  then obtain ids a sm where c: "compute_networks ?s = Inr (ids, a, sm)" by (cases r) auto
  from compute_networks_Inr[OF c] ci4 nid have "length ids = 4" "ids ! ?ci = nid" by auto
  with look c ci4 show ?thesis
    by (auto simp add: audio_recipients_for_def Let_def)
qed

lemma example_net_ids:
  "net_id_of example_sender 0 = Inr ''AAA1000''"
  "net_id_of example_sender (Suc 0) = Inr ''AAB0000''"
  "net_id_of example_sender 2 = Inr ''AAC0000''"
  "net_id_of example_sender 3 = Inr ''AAD0000''"
  "net_id_of example_receiver 0 = Inr ''BBA0000''"
  "net_id_of example_receiver (Suc 0) = Inr ''BBB0000''"
  "net_id_of example_receiver 2 = Inr ''BBC1000''"
  "net_id_of example_receiver 3 = Inr ''BBD0000''"
  "net_id_of example_receiver_nan 0 = Inl ValueError"
  "net_id_of example_receiver_nan (Suc 0) = Inr ''BBB1000''"
proof -
  have fs: "freq_suffix (Finite 100) = Inr ''1000''" "freq_suffix (Finite 0) = Inr ''0000''"
    by (simp_all add: freq_suffix_values)
  have fn: "freq_suffix NaN = Inl ValueError"
    by (simp add: freq_suffix_def times10_def py_int_def)
  show "net_id_of example_sender 0 = Inr ''AAA1000''"
    "net_id_of example_sender (Suc 0) = Inr ''AAB0000''"
    "net_id_of example_sender 2 = Inr ''AAC0000''"
    "net_id_of example_sender 3 = Inr ''AAD0000''"
    "net_id_of example_receiver 0 = Inr ''BBA0000''"
    "net_id_of example_receiver (Suc 0) = Inr ''BBB0000''"
    "net_id_of example_receiver 2 = Inr ''BBC1000''"
    "net_id_of example_receiver 3 = Inr ''BBD0000''"
    "net_id_of example_receiver_nan 0 = Inl ValueError"
    "net_id_of example_receiver_nan (Suc 0) = Inr ''BBB1000''"
    by (simp_all add: net_id_of_def example_sender_def example_receiver_def
        example_receiver_nan_def new_session_def prefix_at_def fs fn)
qed

lemma example_canonical:
  "canonical_net (example_manager s r True) ''AAA1000'' = ''FREQ-100''"
  "canonical_net (example_manager s r True) ''BBC1000'' = ''FREQ-100''"
  "canonical_net (example_manager s r True) ''BBB1000'' = ''FREQ-100''"
  "canonical_net (example_manager s r True) ''BBA0000'' = ''BBA0000''"
  "canonical_net (example_manager s r True) ''BBB0000'' = ''BBB0000''"
  "canonical_net (example_manager s r True) ''BBD0000'' = ''BBD0000''"
  "canonical_net (example_manager s r False) ''AAA1000'' = ''AAA1000''"
  "canonical_net (example_manager s r False) ''BBC1000'' = ''BBC1000''"
proof -
  have n: "map_of (net_alias (example_manager s r flag)) x = None" for flag x
    by (simp add: example_manager_def)
  have a: "auto_merge_by_freq (example_manager s r flag) = flag" for flag
    by (simp add: example_manager_def)
  have e: "freq_suffix_from_net ''AAA1000'' = Some ''1000''"
    "freq_suffix_from_net ''BBC1000'' = Some ''1000''"
    "freq_suffix_from_net ''BBB1000'' = Some ''1000''"
    "freq_suffix_from_net ''BBA0000'' = None"
    "freq_suffix_from_net ''BBB0000'' = None"
    "freq_suffix_from_net ''BBD0000'' = None"
    "auto_canon_for_suffix ''1000'' = ''FREQ-100''"
    "strip ''AAA1000'' = ''AAA1000''" "strip ''BBC1000'' = ''BBC1000''"
    "strip ''BBA0000'' = ''BBA0000''" "strip ''BBB0000'' = ''BBB0000''"
    "strip ''BBD0000'' = ''BBD0000''"
    by code_simp+
  show "canonical_net (example_manager s r True) ''AAA1000'' = ''FREQ-100''"
    "canonical_net (example_manager s r True) ''BBC1000'' = ''FREQ-100''"
    "canonical_net (example_manager s r True) ''BBB1000'' = ''FREQ-100''"
    "canonical_net (example_manager s r True) ''BBA0000'' = ''BBA0000''"
    "canonical_net (example_manager s r True) ''BBB0000'' = ''BBB0000''"
    "canonical_net (example_manager s r True) ''BBD0000'' = ''BBD0000''"
    "canonical_net (example_manager s r False) ''AAA1000'' = ''AAA1000''"
    "canonical_net (example_manager s r False) ''BBC1000'' = ''BBC1000''"
    by (simp_all add: canonical_net_unaliased[OF n] a e)
qed

lemma example_manager_simps:
  "by_ssrc (example_manager s r flag) = [(111, 0), (222, 1)]"
  "heap (example_manager s r flag) 0 = s"
  "heap (example_manager s r flag) (Suc 0) = r"
  "net_alias (example_manager s r flag) = []"
  "auto_merge_by_freq (example_manager s r flag) = flag"
  by (simp_all add: example_manager_def)

lemma example_sessions:
  "active_channel example_sender = 0" "last_seen example_sender = 0"
  "loopback example_sender = False"
  "active_channel example_receiver = 2" "last_seen example_receiver = 0"
  "active_channel example_receiver_nan = 1" "last_seen example_receiver_nan = 0"
  "freqs example_sender = [Finite 100, Finite 0, Finite 0, Finite 0]"
  "freqs example_receiver = [Finite 0, Finite 0, Finite 100, Finite 0]"
  by (simp_all add: example_sender_def example_receiver_def example_receiver_nan_def new_session_def)

lemma example_computable:
  "nets_computable example_sender" "nets_computable example_receiver"
  "\<not> nets_computable example_receiver_nan"
  by (simp_all add: nets_computable_def upt_4 example_net_ids)

lemma example_sender_net:
  "snd (snd (snd (audio_recipients_for (example_manager example_sender r flag) now 111)))
     = canonical_net (example_manager example_sender r flag) ''AAA1000''"
  by (rule audio_recipients_net[where sender = 0])
     (simp_all add: example_manager_simps example_sessions example_computable example_net_ids)

lemma delivery_sender: "delivery mgr now sender net sender = None"
  by (simp add: delivery_def)

lemma audio_recipients_char:
  assumes look: "map_of (by_ssrc mgr) ssrc = Some sender"
    and res: "audio_recipients_for mgr now ssrc = (recips, san, ci, net)"
    and ne: "net \<noteq> []"
  shows "distinct (map fst recips)
       \<and> set recips = {(r, i). r \<in> snd ` set (by_ssrc mgr) \<and> delivery mgr now sender net r = Some i}
                        \<union> (if loopback (heap mgr sender) then {(sender, ci)} else {})
       \<and> ci = nat (max 0 (min 3 (active_channel (heap mgr sender))))
       \<and> (\<exists>nid. net_id_of (heap mgr sender) ci = Inr nid \<and> net = canonical_net mgr nid)"
proof -
  let ?s = "heap mgr sender"
  let ?ci = "nat (max 0 (min 3 (active_channel ?s)))"
  have ci4: "?ci < 4" by auto
  show ?thesis
  proof (cases "compute_networks ?s")
    case (Inl e)
    with look res ne show ?thesis by (simp add: audio_recipients_for_def Let_def)
  next
    case (Inr r)
    obtain ids a sm where r: "r = (ids, a, sm)" by (cases r) auto
    with Inr have c: "compute_networks ?s = Inr (ids, a, sm)" by simp
    from compute_networks_Inr[OF c] have len: "length ids = 4"
      and nid: "\<And>j. j < 4 \<Longrightarrow> net_id_of ?s j = Inr (ids ! j)" by auto
    let ?net = "canonical_net mgr (ids ! ?ci)"
    obtain rs seen where f: "foldl (recipient_step mgr now sender ?net) ([], []) (map snd (by_ssrc mgr)) = (rs, seen)"
      by (cases "foldl (recipient_step mgr now sender ?net) ([], []) (map snd (by_ssrc mgr))") auto
    from len ci4 have g: "ids \<noteq> []" "?ci < length ids" by auto
    have unfolded: "audio_recipients_for mgr now ssrc =
        (if ?net = [] then ([], canonical_net mgr a, ?ci, ?net)
         else (if loopback ?s then rs @ [(sender, ?ci)] else rs, canonical_net mgr a, ?ci, ?net))"
      using look c g f by (simp add: audio_recipients_for_def Let_def)
    with res ne have net: "net = ?net" and ci: "ci = ?ci"
      and recips: "recips = (if loopback ?s then rs @ [(sender, ?ci)] else rs)"
      by (auto split: if_splits)
    from recipients_fold[OF f] have fold: "distinct (map fst rs)"
      "set rs = {(r, i). r \<in> set (map snd (by_ssrc mgr)) \<and> delivery mgr now sender ?net r = Some i}"
      by auto
    from fold(2) have "sender \<notin> fst ` set rs" by (auto simp add: delivery_sender)
    with fold(1) recips have d: "distinct (map fst recips)" by auto
    from fold(2) recips net ci
    have s: "set recips = {(r, i). r \<in> snd ` set (by_ssrc mgr) \<and> delivery mgr now sender net r = Some i}
                        \<union> (if loopback ?s then {(sender, ci)} else {})"
      by auto
    from nid[OF ci4] net ci have "\<exists>nid. net_id_of ?s ci = Inr nid \<and> net = canonical_net mgr nid"
      by auto
    with d s ci show ?thesis by blast
  qed
qed

text \<open>
  Claim C1, as amended.  When the sender exists and the canonical network id of its
  (clamped) active channel is not empty, a session other than the sender is in the
  returned list with index \<open>i\<close> if and only if its \<open>last_seen\<close> is at most 15 seconds
  before \<open>now\<close>, all four of its network identities can be computed (\<open>int(f * 10.0)\<close>
  is defined for each channel frequency \<open>f\<close>: \<open>f\<close> is not a NaN and the binary64
  product \<open>f * 10.0\<close> is not an infinity), channel \<open>i\<close> is on the sender's network, and \<open>i\<close>
  is its stored active channel or else the lowest scan-enabled channel on that network
  while the active channel is not on it.  Each session appears at most once.
\<close>

theorem audio_recipients_iff:
  assumes "map_of (by_ssrc mgr) ssrc = Some sender"
    and "audio_recipients_for mgr now ssrc = (recips, san, ci, net)"
    and "net \<noteq> []"
    and "other \<in> snd ` set (by_ssrc mgr)" and "other \<noteq> sender"
  shows "((other, i) \<in> set recips \<longleftrightarrow>
            now - last_seen (heap mgr other) \<le> 15
            \<and> nets_computable (heap mgr other)
            \<and> spec_recipient_idx mgr net (heap mgr other) i)
       \<and> distinct (map fst recips)
       \<and> ci = nat (max 0 (min 3 (active_channel (heap mgr sender))))
       \<and> (\<exists>nid. net_id_of (heap mgr sender) ci = Inr nid \<and> net = canonical_net mgr nid)"
  using audio_recipients_char[OF assms(1,2,3)] assms(4,5)
    delivery_iff[of mgr now sender net other i]
  by auto

theorem audio_recipients_iff_witness:
  "(1, 2) \<in> set (fst (audio_recipients_for (example_manager example_sender example_receiver True) 1 111))"
proof -
  let ?M = "example_manager example_sender example_receiver True"
  obtain recips san ci net where res: "audio_recipients_for ?M 1 111 = (recips, san, ci, net)"
    by (cases "audio_recipients_for ?M 1 111") auto
  with example_sender_net[of example_receiver True 1] have net: "net = ''FREQ-100''"
    by (simp add: example_canonical)
  have look: "map_of (by_ssrc ?M) 111 = Some 0" by (simp add: example_manager_simps)
  have ne: "net \<noteq> []" using net by simp
  have other: "1 \<in> snd ` set (by_ssrc ?M)" "(1::nat) \<noteq> 0" by (simp_all add: example_manager_simps)
  have alive: "1 - last_seen (heap ?M 1) \<le> 15" by (simp add: example_manager_simps example_sessions)
  have comp: "nets_computable (heap ?M 1)" by (simp add: example_manager_simps example_computable)
  have idx: "spec_recipient_idx ?M net (heap ?M 1) 2"
    by (simp add: spec_recipient_idx_def chan_on_net_def example_manager_simps example_net_ids
        example_sessions net example_canonical)
  from audio_recipients_iff[OF look res ne other, of 2] alive comp idx
  have "(1, 2) \<in> set recips" by blast
  with res show ?thesis by simp
qed

text \<open>
  Without the condition on the frequencies the claim fails: a fresh receiver whose
  active channel B is on the sender's network, but whose channel A frequency is a NaN,
  is skipped, because \<open>compute_networks\<close> raises on channel A and the loop treats the
  session as having no networks.
\<close>

theorem audio_recipients_counterexample:
  "map_of (by_ssrc (example_manager example_sender example_receiver_nan True)) 111 = Some 0
   \<and> snd (snd (snd (audio_recipients_for (example_manager example_sender example_receiver_nan True) 1 111)))
        = ''FREQ-100''
   \<and> 1 \<in> snd ` set (by_ssrc (example_manager example_sender example_receiver_nan True))
   \<and> 1 - last_seen (heap (example_manager example_sender example_receiver_nan True) 1) \<le> 15
   \<and> spec_recipient_idx (example_manager example_sender example_receiver_nan True) ''FREQ-100''
        (heap (example_manager example_sender example_receiver_nan True) 1) 1
   \<and> (1, 1) \<notin> set (fst (audio_recipients_for (example_manager example_sender example_receiver_nan True) 1 111))"
proof -
  let ?M = "example_manager example_sender example_receiver_nan True"
  obtain recips san ci net where res: "audio_recipients_for ?M 1 111 = (recips, san, ci, net)"
    by (cases "audio_recipients_for ?M 1 111") auto
  with example_sender_net[of example_receiver_nan True 1] have net: "net = ''FREQ-100''"
    by (simp add: example_canonical)
  have look: "map_of (by_ssrc ?M) 111 = Some 0" by (simp add: example_manager_simps)
  have ne: "net \<noteq> []" using net by simp
  have idx: "spec_recipient_idx ?M ''FREQ-100'' (heap ?M 1) 1"
    by (simp add: spec_recipient_idx_def chan_on_net_def example_manager_simps example_net_ids
        example_sessions example_canonical)
  have "delivery ?M 1 0 net 1 = None"
    using delivery_iff[of ?M 1 0 net 1] example_computable(3)
    by (cases "delivery ?M 1 0 net 1") (simp_all add: example_manager_simps)
  with audio_recipients_char[OF look res ne] have "(1, 1) \<notin> set recips"
    by (auto simp add: example_manager_simps example_sessions)
  with res net look idx show ?thesis
    by (simp add: example_manager_simps example_sessions)
qed

lemma strip_append_1000: "\<exists>q. strip (p @ ''1000'') = q @ ''1000''"
proof -
  have ns: "\<not> is_space CHR ''1''" "\<not> is_space CHR ''0''" by code_simp+
  have "\<exists>q. dropWhile is_space (p @ ''1000'') = q @ ''1000''"
  proof (cases "\<forall>x \<in> set p. is_space x")
    case True
    then have "dropWhile is_space (p @ ''1000'') = dropWhile is_space ''1000''"
      by simp
    with ns show ?thesis by simp
  next
    case False
    then obtain x where "x \<in> set p" "\<not> is_space x" by blast
    then have "dropWhile is_space (p @ ''1000'') = dropWhile is_space p @ ''1000''"
      by simp
    then show ?thesis by blast
  qed
  then obtain q where q: "dropWhile is_space (p @ ''1000'') = q @ ''1000''" by blast
  have "dropWhile is_space (rev (q @ ''1000'')) = rev (q @ ''1000'')"
    using ns by simp
  with q have "strip (p @ ''1000'') = q @ ''1000''" by (simp add: strip_def)
  then show ?thesis by blast
qed

lemma freq_suffix_from_net_1000: "freq_suffix_from_net (p @ ''1000'') = Some ''1000''"
proof -
  from strip_append_1000 obtain q where q: "strip (p @ ''1000'') = q @ ''1000''" by blast
  have e: "str_isdigit ''1000''" "int_of_str ''1000'' = Some 1000" "fmt_04d 1000 = ''1000''"
    by code_simp+
  from q e show ?thesis by (simp add: freq_suffix_from_net_def)
qed

lemma canonical_net_1000:
  assumes "net_alias mgr = []"
  shows "canonical_net mgr (p @ ''1000'') =
           (if auto_merge_by_freq mgr then ''FREQ-100'' else strip (p @ ''1000''))"
    and "canonical_net mgr (p @ ''1000'') \<noteq> []"
proof -
  have n: "map_of (net_alias mgr) (strip (p @ ''1000'')) = None" using assms by simp
  have a: "auto_canon_for_suffix ''1000'' = ''FREQ-100''" by code_simp
  from canonical_net_unaliased[OF n] a
  show 1: "canonical_net mgr (p @ ''1000'') =
           (if auto_merge_by_freq mgr then ''FREQ-100'' else strip (p @ ''1000''))"
    by (simp add: freq_suffix_from_net_1000)
  from strip_append_1000 obtain q where "strip (p @ ''1000'') = q @ ''1000''" by blast
  with 1 show "canonical_net mgr (p @ ''1000'') \<noteq> []" by simp
qed

lemma net_id_of_100:
  "j < length (freqs s) \<Longrightarrow> freqs s ! j = Finite 100 \<Longrightarrow>
     net_id_of s j = Inr (prefix_at (net_prefixes s) j @ ''1000'')"
  by (simp add: net_id_of_def freq_suffix_values)

text \<open>
  Claim C2, as amended.  With no manual aliases, let S have active channel 0 on 100.0
  MHz and R have channel 2 on 100.0 MHz, both with computable network identities
  (\<open>int(f * 10.0)\<close> is defined for each of their channel frequencies \<open>f\<close>), R
  seen within 15 seconds, and let the two network ids be canonically equal: auto-merge
  by frequency is enabled, or the two random prefixes coincide.  Then R is a recipient
  on index 2 when its active channel is 2; also when its active channel is 1 and its
  channel-2 scan flag is set, provided no other channel of R is on S's network; and R is
  not a recipient when neither holds and no other channel of R is on S's network.
\<close>

theorem routing_on_shared_network:
  assumes "map_of (by_ssrc mgr) ssrc = Some s"
    and "r \<in> snd ` set (by_ssrc mgr)" and "r \<noteq> s"
    and "now - last_seen (heap mgr r) \<le> 15"
    and "net_alias mgr = []"
    and "auto_merge_by_freq mgr
         \<or> prefix_at (net_prefixes (heap mgr s)) 0 = prefix_at (net_prefixes (heap mgr r)) 2"
    and "active_channel (heap mgr s) = 0"
    and "0 < length (freqs (heap mgr s))" and "freqs (heap mgr s) ! 0 = Finite 100"
    and "2 < length (freqs (heap mgr r))" and "freqs (heap mgr r) ! 2 = Finite 100"
    and "nets_computable (heap mgr s)" and "nets_computable (heap mgr r)"
    and "audio_recipients_for mgr now ssrc = (recips, san, ci, net)"
  shows "(active_channel (heap mgr r) = 2 \<longrightarrow> (r, 2) \<in> set recips)
       \<and> (active_channel (heap mgr r) = 1 \<and> scan_at (heap mgr r) 2
            \<and> \<not> list_ex (chan_on_net mgr net (heap mgr r)) [0, 1, 3]
            \<longrightarrow> (r, 2) \<in> set recips)
       \<and> (active_channel (heap mgr r) \<noteq> 2 \<and> \<not> scan_at (heap mgr r) 2
            \<and> \<not> list_ex (chan_on_net mgr net (heap mgr r)) [0, 1, 3]
            \<longrightarrow> r \<notin> fst ` set recips)"
proof -
  let ?S = "heap mgr s" and ?R = "heap mgr r"
  let ?ps = "prefix_at (net_prefixes ?S) 0" and ?pr = "prefix_at (net_prefixes ?R) 2"
  have ids: "net_id_of ?S 0 = Inr (?ps @ ''1000'')" "net_id_of ?R 2 = Inr (?pr @ ''1000'')"
    using assms(8-11) by (simp_all add: net_id_of_100)
  from assms(7) have ci0: "nat (max 0 (min 3 (active_channel ?S))) = 0" by simp
  from audio_recipients_net[OF assms(1,12), of "?ps @ ''1000''" now] ids(1) ci0 assms(14)
  have net: "net = canonical_net mgr (?ps @ ''1000'')" by simp
  with canonical_net_1000(2)[OF assms(5)] have ne: "net \<noteq> []" by simp
  from net assms(6) canonical_net_1000(1)[OF assms(5)]
  have "canonical_net mgr (?pr @ ''1000'') = net" by auto
  with ids(2) have on2: "chan_on_net mgr net ?R 2" by (simp add: chan_on_net_def)
  from audio_recipients_char[OF assms(1,14) ne] assms(2,3)
  have mem: "(r, i) \<in> set recips \<longleftrightarrow> delivery mgr now s net r = Some i" for i by auto
  have d: "delivery mgr now s net r = Some i \<longleftrightarrow> spec_recipient_idx mgr net ?R i" for i
    using delivery_iff[of mgr now s net r i] assms(3,4,13) by simp
  have p1: "(r, 2) \<in> set recips" if "active_channel ?R = 2"
    using that on2 by (simp add: mem d spec_recipient_idx_def)
  have p2: "(r, 2) \<in> set recips"
    if "active_channel ?R = 1" "scan_at ?R 2" "\<not> list_ex (chan_on_net mgr net ?R) [0, 1, 3]"
    using that on2 by (simp add: mem d spec_recipient_idx_def upt_4 upt_small)
  have p3: "r \<notin> fst ` set recips"
    if h: "active_channel ?R \<noteq> 2" "\<not> scan_at ?R 2" "\<not> list_ex (chan_on_net mgr net ?R) [0, 1, 3]"
  proof
    assume "r \<in> fst ` set recips"
    then obtain i where "(r, i) \<in> set recips" by auto
    then have sp: "spec_recipient_idx mgr net ?R i" by (simp add: mem d)
    then have "i < 4" "chan_on_net mgr net ?R i" by (simp_all add: spec_recipient_idx_def)
    with h(3) have "i = 2" by (cases "i = 0 \<or> i = 1 \<or> i = 3") auto
    with sp h(1,2) show False by (simp add: spec_recipient_idx_def)
  qed
  from p1 p2 p3 show ?thesis by blast
qed

theorem routing_on_shared_network_witness:
  "(1, 2) \<in> set (fst (audio_recipients_for (example_manager example_sender example_receiver True) 1 111))
   \<and> auto_merge_by_freq (example_manager example_sender example_receiver True)"
proof -
  let ?M = "example_manager example_sender example_receiver True"
  obtain recips san ci net where res: "audio_recipients_for ?M 1 111 = (recips, san, ci, net)"
    by (cases "audio_recipients_for ?M 1 111") auto
  have h: "map_of (by_ssrc ?M) 111 = Some 0" "1 \<in> snd ` set (by_ssrc ?M)" "(1::nat) \<noteq> 0"
    "1 - last_seen (heap ?M 1) \<le> 15" "net_alias ?M = []"
    "auto_merge_by_freq ?M
       \<or> prefix_at (net_prefixes (heap ?M 0)) 0 = prefix_at (net_prefixes (heap ?M 1)) 2"
    "active_channel (heap ?M 0) = 0"
    "0 < length (freqs (heap ?M 0))" "freqs (heap ?M 0) ! 0 = Finite 100"
    "2 < length (freqs (heap ?M 1))" "freqs (heap ?M 1) ! 2 = Finite 100"
    "nets_computable (heap ?M 0)" "nets_computable (heap ?M 1)"
    by (simp_all add: example_manager_simps example_sessions example_computable)
  have "active_channel (heap ?M 1) = 2" by (simp add: example_manager_simps example_sessions)
  with routing_on_shared_network[OF h res] have "(1, 2) \<in> set recips" by blast
  with res show ?thesis by (simp add: example_manager_simps)
qed

text \<open>
  In the default routing state (no aliases, auto-merge disabled) the claim fails: the
  network ids carry the sessions' own random prefixes, so S on \<open>AAA1000\<close> does not reach
  R, whose active channel 2 is \<open>BBC1000\<close>.
\<close>

theorem routing_default_state_counterexample:
  "net_alias (example_manager example_sender example_receiver False) = []
   \<and> \<not> auto_merge_by_freq (example_manager example_sender example_receiver False)
   \<and> map_of (by_ssrc (example_manager example_sender example_receiver False)) 111 = Some 0
   \<and> map_of (by_ssrc (example_manager example_sender example_receiver False)) 222 = Some 1
   \<and> active_channel (heap (example_manager example_sender example_receiver False) 0) = 0
   \<and> freqs (heap (example_manager example_sender example_receiver False) 0) ! 0 = Finite 100
   \<and> freqs (heap (example_manager example_sender example_receiver False) 1) ! 2 = Finite 100
   \<and> active_channel (heap (example_manager example_sender example_receiver False) 1) = 2
   \<and> 1 - last_seen (heap (example_manager example_sender example_receiver False) 0) \<le> 15
   \<and> 1 - last_seen (heap (example_manager example_sender example_receiver False) 1) \<le> 15
   \<and> (1, 2) \<notin> set (fst (audio_recipients_for (example_manager example_sender example_receiver False) 1 111))"
proof -
  let ?M = "example_manager example_sender example_receiver False"
  obtain recips san ci net where res: "audio_recipients_for ?M 1 111 = (recips, san, ci, net)"
    by (cases "audio_recipients_for ?M 1 111") auto
  with example_sender_net[of example_receiver False 1] have net: "net = ''AAA1000''"
    by (simp add: example_canonical)
  have look: "map_of (by_ssrc ?M) 111 = Some 0" by (simp add: example_manager_simps)
  have ne: "net \<noteq> []" using net by simp
  have "\<not> chan_on_net ?M net (heap ?M 1) 2"
    by (simp add: chan_on_net_def example_manager_simps example_net_ids net example_canonical)
  then have "\<not> spec_recipient_idx ?M net (heap ?M 1) 2" by (simp add: spec_recipient_idx_def)
  then have "delivery ?M 1 0 net 1 \<noteq> Some 2" by (simp add: delivery_iff)
  with audio_recipients_char[OF look res ne] have "(1, 2) \<notin> set recips"
    by (auto simp add: example_manager_simps example_sessions)
  with res show ?thesis
    by (simp add: example_manager_simps example_sessions)
qed

section \<open>Zero-frequency channels under auto-merge\<close>

lemma idle_net_ids:
  "net_id_of example_idle_sender 0 = Inr ''QQQ0000''"
  "net_id_of example_idle_sender (Suc 0) = Inr ''QQA0000''"
  "net_id_of example_idle_sender 2 = Inr ''QQB0000''"
  "net_id_of example_idle_sender 3 = Inr ''QQC0000''"
  "net_id_of example_idle_receiver 0 = Inr ''QQQ0000''"
  "net_id_of example_idle_receiver (Suc 0) = Inr ''RRA0000''"
  "net_id_of example_idle_receiver 2 = Inr ''RRB0000''"
  "net_id_of example_idle_receiver 3 = Inr ''RRC0000''"
  by (simp_all add: net_id_of_def example_idle_sender_def example_idle_receiver_def
      new_session_def prefix_at_def freq_suffix_values)

lemma idle_sessions:
  "active_channel example_idle_sender = 0" "last_seen example_idle_sender = 0"
  "loopback example_idle_sender = False"
  "active_channel example_idle_receiver = 0" "last_seen example_idle_receiver = 0"
  "freqs example_idle_sender = [Finite 0, Finite 0, Finite 0, Finite 0]"
  "freqs example_idle_receiver = [Finite 0, Finite 0, Finite 0, Finite 0]"
  by (simp_all add: example_idle_sender_def example_idle_receiver_def new_session_def)

lemma idle_computable:
  "nets_computable example_idle_sender" "nets_computable example_idle_receiver"
  by (simp_all add: nets_computable_def upt_4 idle_net_ids)

lemma idle_canonical: "canonical_net (example_manager s r True) ''QQQ0000'' = ''QQQ0000''"
proof -
  have n: "map_of (net_alias (example_manager s r True)) x = None" for x
    by (simp add: example_manager_def)
  have e: "freq_suffix_from_net ''QQQ0000'' = None" "strip ''QQQ0000'' = ''QQQ0000''"
    by code_simp+
  show ?thesis by (simp add: canonical_net_unaliased[OF n] e)
qed

text \<open>
  Claim C10, as amended.  With auto-merge enabled and no manual alias on the id,
  \<open>canonical_net\<close> returns the synthetic \<open>FREQ-\<close> id of the last four characters exactly
  when these are decimal digits of a strictly positive value; otherwise (suffix \<open>0000\<close>
  or not numeric) it returns the id itself (trimmed of surrounding whitespace, which a
  network id does not have).  Two ids of the second kind are therefore on the same
  network exactly when they are the same id: auto-merge does not unify zero-frequency
  channels, and does not separate two that carry the same prefix.
\<close>

theorem canonical_net_auto_merge_positive_only:
  assumes "auto_merge_by_freq mgr"
    and "map_of (net_alias mgr) (strip nid) = None"
    and "map_of (net_alias mgr) (strip nid') = None"
  shows "(positive_suffix (strip nid) \<longrightarrow>
            canonical_net mgr nid = auto_canon_for_suffix (drop (length (strip nid) - 4) (strip nid))
            \<and> take 5 (canonical_net mgr nid) = ''FREQ-'')
       \<and> (\<not> positive_suffix (strip nid) \<longrightarrow> canonical_net mgr nid = strip nid)
       \<and> (strip nid = nid \<and> \<not> positive_suffix nid \<longrightarrow> canonical_net mgr nid = nid)
       \<and> (\<not> positive_suffix (strip nid) \<and> \<not> positive_suffix (strip nid')
            \<longrightarrow> (canonical_net mgr nid = canonical_net mgr nid' \<longleftrightarrow> strip nid = strip nid'))"
  using canonical_net_unaliased[OF assms(2)] canonical_net_unaliased[OF assms(3)] assms(1)
    freq_suffix_from_net_Some[of nid] freq_suffix_from_net_Some[of nid']
    freq_suffix_from_net_value[of nid]
  by (auto simp add: auto_canon_prefix split: option.splits)

theorem canonical_net_auto_merge_positive_only_witness:
  "canonical_net (new_session_manager\<lparr>auto_merge_by_freq := True\<rparr>) ''ABC0000'' = ''ABC0000''
   \<and> canonical_net (new_session_manager\<lparr>auto_merge_by_freq := True\<rparr>) ''ABC0000''
       \<noteq> canonical_net (new_session_manager\<lparr>auto_merge_by_freq := True\<rparr>) ''XYZ0000''
   \<and> canonical_net (new_session_manager\<lparr>auto_merge_by_freq := True\<rparr>) ''ABC1000'' = ''FREQ-100''"
proof -
  let ?m = "new_session_manager\<lparr>auto_merge_by_freq := True\<rparr>"
  have a: "auto_merge_by_freq ?m" by simp
  have n: "map_of (net_alias ?m) s = None" for s by (simp add: new_session_manager_def)
  have s1: "strip ''ABC0000'' = ''ABC0000''" "strip ''XYZ0000'' = ''XYZ0000''"
    "strip ''ABC1000'' = ''ABC1000''" by code_simp+
  have p: "\<not> positive_suffix ''ABC0000''" "\<not> positive_suffix ''XYZ0000''"
    "positive_suffix ''ABC1000''" by code_simp+
  have f: "auto_canon_for_suffix ''1000'' = ''FREQ-100''" by code_simp
  from canonical_net_auto_merge_positive_only[OF a n n, of "''ABC0000''" "''XYZ0000''"] s1 p
  have 1: "canonical_net ?m ''ABC0000'' = ''ABC0000''"
    "canonical_net ?m ''ABC0000'' \<noteq> canonical_net ?m ''XYZ0000''" by auto
  from canonical_net_auto_merge_positive_only[OF a n n, of "''ABC1000''" "''ABC1000''"] s1 p f
  have 2: "canonical_net ?m ''ABC1000'' = ''FREQ-100''" by simp
  from 1 2 show ?thesis by blast
qed

text \<open>
  The claim's conclusion, that zero-frequency channels never unify across sessions,
  fails: the prefixes are drawn at random without a uniqueness check, and two fresh
  sessions whose channel-A prefixes came out equal are both on \<open>QQQ0000\<close>.  With
  auto-merge enabled and no alias, the id is returned unchanged for both, and the audio
  of the first session is delivered to the second on channel 0.
\<close>

theorem zero_frequency_unifies_counterexample:
  "auto_merge_by_freq (example_manager example_idle_sender example_idle_receiver True)
   \<and> net_alias (example_manager example_idle_sender example_idle_receiver True) = []
   \<and> map_of (by_ssrc (example_manager example_idle_sender example_idle_receiver True)) 111 = Some 0
   \<and> map_of (by_ssrc (example_manager example_idle_sender example_idle_receiver True)) 222 = Some 1
   \<and> freqs (heap (example_manager example_idle_sender example_idle_receiver True) 0) ! 0 = Finite 0
   \<and> freqs (heap (example_manager example_idle_sender example_idle_receiver True) 1) ! 0 = Finite 0
   \<and> net_id_of (heap (example_manager example_idle_sender example_idle_receiver True) 0) 0 = Inr ''QQQ0000''
   \<and> net_id_of (heap (example_manager example_idle_sender example_idle_receiver True) 1) 0 = Inr ''QQQ0000''
   \<and> canonical_net (example_manager example_idle_sender example_idle_receiver True) ''QQQ0000'' = ''QQQ0000''
   \<and> (1, 0) \<in> set (fst (audio_recipients_for (example_manager example_idle_sender example_idle_receiver True) 1 111))"
proof -
  let ?M = "example_manager example_idle_sender example_idle_receiver True"
  obtain recips san ci net where res: "audio_recipients_for ?M 1 111 = (recips, san, ci, net)"
    by (cases "audio_recipients_for ?M 1 111") auto
  have look: "map_of (by_ssrc ?M) 111 = Some 0" by (simp add: example_manager_simps)
  have "snd (snd (snd (audio_recipients_for ?M 1 111))) = canonical_net ?M ''QQQ0000''"
    by (rule audio_recipients_net[where sender = 0])
       (simp_all add: example_manager_simps idle_sessions idle_computable idle_net_ids)
  with res have net: "net = ''QQQ0000''" by (simp add: idle_canonical)
  then have ne: "net \<noteq> []" by simp
  have idx: "spec_recipient_idx ?M net (heap ?M 1) 0"
    by (simp add: spec_recipient_idx_def chan_on_net_def example_manager_simps idle_net_ids
        idle_sessions net idle_canonical)
  have "delivery ?M 1 0 net 1 = Some 0"
    using idx by (simp add: delivery_iff example_manager_simps idle_sessions idle_computable)
  with audio_recipients_char[OF look res ne] have "(1, 0) \<in> set recips"
    by (auto simp add: example_manager_simps)
  with res show ?thesis
    by (simp add: example_manager_simps idle_sessions idle_net_ids idle_canonical)
qed

end
